theory Spec2Isabelle
  imports Complex_Main
begin

section \<open>Regular expressions as the source writes them\<close>

text \<open>
  The module is four regular-expression patterns and three functions.  The patterns are
  embedded as syntax trees that mirror the pattern text constructor by constructor, and a
  backtracking matcher gives them the meaning ECMAScript gives them.

  A JavaScript string is a sequence of UTF-16 code units; the patterns only tell apart
  code units below 128, so a code unit is modelled as a \<open>char\<close> and a string as a
  \<open>string\<close>.

  A character class is a list of inclusive ranges, \<open>[0-9a-fA-F]\<close> being three ranges and
  a single character \<open>c\<close> the range from \<open>c\<close> to \<open>c\<close>.
\<close>

type_synonym cclass = "(char \<times> char) list"

definition in_range :: "char \<times> char \<Rightarrow> char \<Rightarrow> bool" where
  "in_range r x = ((of_char (fst r) :: nat) \<le> of_char x \<and> (of_char x :: nat) \<le> of_char (snd r))"

definition in_class :: "cclass \<Rightarrow> char \<Rightarrow> bool" where
  "in_class cs x = list_ex (\<lambda>r. in_range r x) cs"

datatype regex =
    Chars cclass                \<comment> \<open>\<open>[...]\<close>, and a literal character\<close>
  | NotChars cclass             \<comment> \<open>\<open>[^...]\<close>\<close>
  | Eps                         \<comment> \<open>the empty pattern\<close>
  | Seq regex regex             \<comment> \<open>\<open>r1 r2\<close>\<close>
  | Alt regex regex             \<comment> \<open>\<open>r1|r2\<close>\<close>
  | Star regex                  \<comment> \<open>\<open>r*\<close>, greedy\<close>
  | LazyStar regex              \<comment> \<open>\<open>r*?\<close>, lazy\<close>
  | Group nat regex             \<comment> \<open>the capturing group with this number\<close>
  | Look regex                  \<comment> \<open>\<open>(?=r)\<close>\<close>

definition Lit :: "char \<Rightarrow> regex" where
  "Lit x = Chars [(x, x)]"

definition Plus :: "regex \<Rightarrow> regex" where
  "Plus r = Seq r (Star r)"

definition Opt :: "regex \<Rightarrow> regex" where
  "Opt r = Alt r Eps"

definition Rep4 :: "regex \<Rightarrow> regex" where
  "Rep4 r = Seq r (Seq r (Seq r r))"

text \<open>
  The matcher state is the input still to be read and the captures made so far.
  \<open>ms r st\<close> lists every way \<open>r\<close> can match at the head of the input, in the order in
  which a backtracking matcher tries them: the head of the list is the match ECMAScript's
  matcher returns, and the empty list is failure.  A greedy star tries one more iteration
  before it tries to stop, a lazy star the other way round; an iteration that reads
  nothing is rejected (ECMAScript's RepeatMatcher does the same).
\<close>

type_synonym captures = "nat \<Rightarrow> string option"

type_synonym mstate = "string \<times> captures"

function ms :: "regex \<Rightarrow> mstate \<Rightarrow> mstate list" where
  "ms (Chars cs) st =
     (case fst st of [] \<Rightarrow> [] | x # xs \<Rightarrow> if in_class cs x then [(xs, snd st)] else [])"
| "ms (NotChars cs) st =
     (case fst st of [] \<Rightarrow> [] | x # xs \<Rightarrow> if in_class cs x then [] else [(xs, snd st)])"
| "ms Eps st = [st]"
| "ms (Seq r1 r2) st = concat (map (ms r2) (ms r1 st))"
| "ms (Alt r1 r2) st = ms r1 st @ ms r2 st"
| "ms (Star r) st =
     concat (map (ms (Star r)) (filter (\<lambda>st'. length (fst st') < length (fst st)) (ms r st)))
     @ [st]"
| "ms (LazyStar r) st =
     st # concat (map (ms (LazyStar r))
                   (filter (\<lambda>st'. length (fst st') < length (fst st)) (ms r st)))"
| "ms (Group n r) st =
     map (\<lambda>st'. (fst st', (snd st')(n \<mapsto> take (length (fst st) - length (fst st')) (fst st))))
       (ms r st)"
| "ms (Look r) st = (case ms r st of [] \<Rightarrow> [] | st' # _ \<Rightarrow> [(fst st, snd st')])"
  by pat_completeness auto

termination
  by (relation "measures [\<lambda>(r, st). size r, \<lambda>(r, st). length (fst st)]") auto

text \<open>
  The two equations for the stars rewrite a star by itself, so they are not simplification
  rules; they are used by name.
\<close>

declare ms.simps(6) [simp del] ms.simps(7) [simp del]

lemma ms_length: "st' \<in> set (ms r st) \<Longrightarrow> length (fst st') \<le> length (fst st)"
proof (induction r st arbitrary: st' rule: ms.induct)
  case (1 cs st)
  then show ?case by (cases "fst st") (auto split: if_splits)
next
  case (2 cs st)
  then show ?case by (cases "fst st") (auto split: if_splits)
next
  case (3 st)
  then show ?case by simp
next
  case (4 r1 r2 st)
  then obtain m where m: "m \<in> set (ms r1 st)" and st': "st' \<in> set (ms r2 m)"
    by auto
  from "4.IH"(1)[OF m] "4.IH"(2)[OF m st'] show ?case by simp
next
  case (5 r1 r2 st)
  from "5.prems" have "st' \<in> set (ms r1 st) \<or> st' \<in> set (ms r2 st)" by simp
  then show ?case using "5.IH" by blast
next
  case (6 r st)
  from "6.prems" have "st' \<in> set (concat (map (ms (Star r))
      (filter (\<lambda>st'. length (fst st') < length (fst st)) (ms r st))) @ [st])"
    by (simp only: ms.simps(6))
  then consider "st' = st"
    | m where "m \<in> set (ms r st)" "length (fst m) < length (fst st)" "st' \<in> set (ms (Star r) m)"
    by auto
  then show ?case
  proof cases
    case 1
    then show ?thesis by simp
  next
    case 2
    then have "m \<in> set (filter (\<lambda>st'. length (fst st') < length (fst st)) (ms r st))" by simp
    from "6.IH"(2)[OF this 2(3)] 2(2) show ?thesis by simp
  qed
next
  case (7 r st)
  from "7.prems" have "st' \<in> set (st # concat (map (ms (LazyStar r))
      (filter (\<lambda>st'. length (fst st') < length (fst st)) (ms r st))))"
    by (simp only: ms.simps(7))
  then consider "st' = st"
    | m where "m \<in> set (ms r st)" "length (fst m) < length (fst st)" "st' \<in> set (ms (LazyStar r) m)"
    by auto
  then show ?case
  proof cases
    case 1
    then show ?thesis by simp
  next
    case 2
    then have "m \<in> set (filter (\<lambda>st'. length (fst st') < length (fst st)) (ms r st))" by simp
    from "7.IH"(2)[OF this 2(3)] 2(2) show ?thesis by simp
  qed
next
  case (8 n r st)
  from "8.prems" obtain m where "m \<in> set (ms r st)" "fst st' = fst m" by auto
  then show ?case using "8.IH" by simp
next
  case (9 r st)
  then show ?case by (cases "ms r st") auto
qed

section \<open>The patterns of the module\<close>

definition dq :: char where
  "dq = CHR 0x22"

definition bs :: char where
  "bs = CHR 0x5C"

definition digit :: cclass where
  "digit = [(CHR ''0'', CHR ''9'')]"

definition hexdigit :: cclass where
  "hexdigit = [(CHR ''0'', CHR ''9''), (CHR ''a'', CHR ''f''), (CHR ''A'', CHR ''F'')]"

text \<open>
  \<^verbatim>\<open>numberExpPattern = '(-?)([0-9]+)(?:\\.([0-9]+))?[eE]([+-]?[0-9]+)'\<close>.
  The pattern text is spliced into \<open>jsonWithNumberExpRE\<close> below, after that pattern's
  groups 1 and 2, so its four groups are groups 3 to 6 there.
\<close>

definition numberExpPattern :: regex where
  "numberExpPattern =
     Seq (Group 3 (Opt (Lit CHR ''-'')))
    (Seq (Group 4 (Plus (Chars digit)))
    (Seq (Opt (Seq (Lit CHR ''.'') (Group 5 (Plus (Chars digit)))))
    (Seq (Chars [(CHR ''e'', CHR ''e''), (CHR ''E'', CHR ''E'')])
         (Group 6 (Seq (Opt (Chars [(CHR ''+'', CHR ''+''), (CHR ''-'', CHR ''-'')]))
                       (Plus (Chars digit)))))))"

text \<open>
  \<^verbatim>\<open>stringPattern = '"(?:[^\\x00-\\x1F\\\\"]|\\\\(?:["\\\\/bfnrt]|u[0-9a-fA-F]{4}))*"'\<close>,
  that is the pattern \<^verbatim>\<open>"(?:[^\x00-\x1F\\"]|\\(?:["\\/bfnrt]|u[0-9a-fA-F]{4}))*"\<close>.
\<close>

definition stringChar :: regex where
  "stringChar =
     Alt (NotChars [(CHR 0x00, CHR 0x1F), (bs, bs), (dq, dq)])
         (Seq (Lit bs)
              (Alt (Chars [(dq, dq), (bs, bs), (CHR ''/'', CHR ''/''), (CHR ''b'', CHR ''b''),
                           (CHR ''f'', CHR ''f''), (CHR ''n'', CHR ''n''), (CHR ''r'', CHR ''r''),
                           (CHR ''t'', CHR ''t'')])
                   (Seq (Lit CHR ''u'') (Rep4 (Chars hexdigit)))))"

definition stringPattern :: regex where
  "stringPattern = Seq (Lit dq) (Seq (Star stringChar) (Lit dq))"

text \<open>
  \<^verbatim>\<open>jsonWithNumberExpRE = new RegExp(`((?:${stringPattern}|[^"])*?)(${numberExpPattern})`, 'gy')\<close>
\<close>

definition skipItem :: regex where
  "skipItem = Alt stringPattern (NotChars [(dq, dq)])"

definition jsonWithNumberExpRE :: regex where
  "jsonWithNumberExpRE = Seq (Group 1 (LazyStar skipItem)) (Group 2 numberExpPattern)"

text \<open>The pattern of line 64, \<^verbatim>\<open>/^0+(?=[0-9])/\<close>, without its anchor.\<close>

definition leadingZerosRE :: regex where
  "leadingZerosRE = Seq (Plus (Lit CHR ''0'')) (Look (Chars digit))"

section \<open>The converter\<close>

text \<open>
  \<^verbatim>\<open>unsigned.replace(/^0+(?=[0-9])/, '')\<close>: the pattern is neither global nor sticky, so
  \<open>replace\<close> looks for the first index at which it matches; the anchor \<open>^\<close> (no \<open>m\<close>
  flag) fails at every index but 0, so the only attempt that can succeed is the one at
  index 0, and what it matched is replaced by the empty string.
\<close>

definition removeLeadingZeros :: "string \<Rightarrow> string" where
  "removeLeadingZeros unsigned =
     (case ms leadingZerosRE (unsigned, Map.empty) of
        [] \<Rightarrow> unsigned
      | st # _ \<Rightarrow> fst st)"

text \<open>
  \<open>exponent\<close> is a JavaScript number that holds an integer (see \<open>Number\<close> below);
  \<open>s.slice(0, n)\<close> and \<open>s.slice(n)\<close> with \<open>0 \<le> n\<close> are \<open>take n s\<close> and \<open>drop n s\<close>, and
  \<open>'0'.repeat(n)\<close> is called with \<open>0 \<le> n\<close> only (it would throw otherwise).
\<close>

definition exponentialPartsToFixed :: "string \<Rightarrow> string \<Rightarrow> string \<Rightarrow> int \<Rightarrow> string" where
  "exponentialPartsToFixed signPart intPart fracPart exponent =
     (if exponent \<ge> 0 then
        (let unsigned =
           (if int (length fracPart) \<le> exponent
            then intPart @ fracPart @ replicate (nat (exponent - int (length fracPart))) CHR ''0''
            else intPart @ take (nat exponent) fracPart @ ''.'' @ drop (nat exponent) fracPart)
         in signPart @ removeLeadingZeros unsigned)
      else
        (let exponent' = - exponent in
         if int (length intPart) > exponent'
         then signPart @ take (nat exponent') intPart @ ''.'' @ drop (nat exponent') intPart
              @ fracPart
         else signPart @ ''0.'' @ replicate (nat (exponent' - int (length intPart))) CHR ''0''
              @ intPart @ fracPart))"

text \<open>
  \<open>Number(expPart)\<close> for a text \<open>[+-]?[0-9]+\<close>: the decimal integer it writes (leading
  zeros allowed, no octal).  JavaScript rounds the integer to a double; an integer of
  magnitude up to \<open>2^53\<close> is kept exactly and a larger one stays larger than 1000 after
  rounding, and the only use of the number before it is known to lie within \<open>\<plusminus>1000\<close> is
  the comparison with \<open>\<plusminus>1000\<close>.  So the integer itself is the model.  (\<open>Number('-0')\<close> is
  the negative zero, which the converter treats as zero: it is not less than 0, and
  \<open>slice\<close> and \<open>repeat\<close> read it as 0.)
\<close>

definition digit_val :: "char \<Rightarrow> nat" where
  "digit_val x = of_char x - 48"

definition digits_val :: "string \<Rightarrow> nat" where
  "digits_val ds = foldl (\<lambda>a x. 10 * a + digit_val x) 0 ds"

definition Number :: "string \<Rightarrow> int" where
  "Number s =
     (case s of
        [] \<Rightarrow> 0
      | x # ds \<Rightarrow>
          if x = CHR ''+'' then int (digits_val ds)
          else if x = CHR ''-'' then - int (digits_val ds)
          else int (digits_val s))"

datatype error = TypeError string | RangeError string

text \<open>
  The arguments of a replacer function are the matched text and the captures; a capture
  of a group that took no part in the match is \<open>undefined\<close> (\<open>None\<close>).  Only \<open>fracPart\<close>
  can be.
\<close>

definition exponentialToFixedReplacer ::
  "string \<Rightarrow> string \<Rightarrow> string \<Rightarrow> string \<Rightarrow> string \<Rightarrow> string option \<Rightarrow> string \<Rightarrow> error + string"
where
  "exponentialToFixedReplacer match prefix numExp signPart intPart fracPart expPart =
     (let exp = Number expPart in
      if exp > 1000 \<or> exp < - 1000
      then Inl (RangeError (numExp @ '' exponent exceeds maximum''))
      else Inr (prefix @ exponentialPartsToFixed signPart intPart
                  (case fracPart of None \<Rightarrow> [] | Some f \<Rightarrow> f) exp))"

section \<open>Replacing with a global sticky pattern\<close>

text \<open>
  \<open>json.replaceAll(jsonWithNumberExpRE, wrapReplacer)\<close> hands over to the pattern's
  replace method (ECMA-262, \<open>RegExp.prototype[@@replace]\<close>), which for a global pattern
  sets \<open>lastIndex\<close> to 0, collects the results of \<open>RegExpBuiltinExec\<close> until it fails,
  and then calls the replacer for each result and splices the replacements.

  A result holds the index of the match, the matched text and the captures.
\<close>

record rmatch =
  index :: nat
  matched :: string
  caps :: captures

text \<open>
  \<open>RegExpBuiltinExec\<close> for the flags \<open>gy\<close>: the match is tried at \<open>lastIndex\<close> only
  (sticky); failure sets \<open>lastIndex\<close> to 0, success sets it to the end of the match.
  The result is paired with the new \<open>lastIndex\<close>.
\<close>

definition RegExpBuiltinExec :: "regex \<Rightarrow> string \<Rightarrow> nat \<Rightarrow> rmatch option \<times> nat" where
  "RegExpBuiltinExec R S lastIndex =
     (if lastIndex > length S then (None, 0)
      else case ms R (drop lastIndex S, Map.empty) of
             [] \<Rightarrow> (None, 0)
           | st # _ \<Rightarrow>
               (let e = length S - length (fst st) in
                (Some \<lparr>index = lastIndex,
                       matched = take (e - lastIndex) (drop lastIndex S),
                       caps = snd st\<rparr>, e)))"

lemma RegExpBuiltinExec_advances:
  assumes "RegExpBuiltinExec R S li = (Some m, li')"
  shows "li \<le> li' \<and> li' \<le> length S \<and> (matched m \<noteq> [] \<longrightarrow> li < li')"
proof -
  from assms have le: "li \<le> length S"
    by (auto simp: RegExpBuiltinExec_def split: if_splits)
  from assms le obtain st sts where st: "ms R (drop li S, Map.empty) = st # sts"
    and li': "li' = length S - length (fst st)"
    and m: "matched m = take (li' - li) (drop li S)"
    by (auto simp: RegExpBuiltinExec_def Let_def split: if_splits list.splits)
  from st have "st \<in> set (ms R (drop li S, Map.empty))" by simp
  from ms_length[OF this] have "length (fst st) \<le> length S - li" by simp
  with le li' m show ?thesis by auto
qed

text \<open>
  The loop that collects the results.  After an empty match \<open>lastIndex\<close> is advanced by
  one, as the standard has it (the pattern of this module never matches the empty text).
\<close>

function collect :: "regex \<Rightarrow> string \<Rightarrow> nat \<Rightarrow> rmatch list \<times> nat" where
  "collect R S lastIndex =
     (case RegExpBuiltinExec R S lastIndex of
        (None, li) \<Rightarrow> ([], li)
      | (Some m, li) \<Rightarrow>
          (case collect R S (if matched m = [] then li + 1 else li) of
             (results, li') \<Rightarrow> (m # results, li')))"
  by pat_completeness auto

termination
proof (relation "measure (\<lambda>(R, S, li). Suc (length S) - li)", goal_cases)
  case 1
  show ?case by simp
next
  case (2 R S lastIndex x e mt)
  then have "RegExpBuiltinExec R S lastIndex = (Some mt, e)" by simp
  from RegExpBuiltinExec_advances[OF this] show ?case by auto
qed

declare collect.simps [simp del]

text \<open>
  The second half of the replace method: for each result in order, call the replacer,
  and append the text since the previous match and the replacement.  An exception of the
  replacer ends the call.  A replacer may have effects; they are made on a state of type
  \<open>'s\<close> that is passed along.
\<close>

type_synonym 's replacer = "rmatch \<Rightarrow> 's \<Rightarrow> (error + string) \<times> 's"

fun splice :: "string \<Rightarrow> 's replacer \<Rightarrow> nat \<Rightarrow> string \<Rightarrow> rmatch list \<Rightarrow> 's \<Rightarrow> (error + string) \<times> 's"
where
  "splice S f nextSourcePosition accumulatedResult [] s =
     (Inr (accumulatedResult @ drop nextSourcePosition S), s)"
| "splice S f nextSourcePosition accumulatedResult (m # results) s =
     (case f m s of
        (Inl err, s') \<Rightarrow> (Inl err, s')
      | (Inr replacement, s') \<Rightarrow>
          if index m \<ge> nextSourcePosition
          then splice S f (index m + length (matched m))
                 (accumulatedResult
                  @ take (index m - nextSourcePosition) (drop nextSourcePosition S)
                  @ replacement)
                 results s'
          else splice S f nextSourcePosition accumulatedResult results s')"

text \<open>
  The state of a call: \<open>lastIndex\<close> of the one pattern object of the module, which all
  calls share, and the state the caller's replacer works on.
\<close>

record 's world =
  lastIndex :: nat
  heap :: 's

definition replaceAll :: "regex \<Rightarrow> string \<Rightarrow> 's replacer \<Rightarrow> 's world \<Rightarrow> (error + string) \<times> 's world"
where
  "replaceAll R S f w =
     (let w0 = w\<lparr>lastIndex := 0\<rparr> in
      case collect R S (lastIndex w0) of
        (results, li) \<Rightarrow>
          (case splice S f 0 [] results (heap w0) of
             (res, s') \<Rightarrow> (res, \<lparr>lastIndex = li, heap = s'\<rparr>)))"

section \<open>The exported function\<close>

text \<open>
  The values a caller can pass: \<open>typeof\<close> tells a string, a function and \<open>undefined\<close>
  from everything else.  A function value takes the text of a number and returns the
  replacement, with its effects on the caller's state.
\<close>

datatype 's jsval =
    JUndefined
  | JString string
  | JFunction "string \<Rightarrow> 's \<Rightarrow> string \<times> 's"
  | JOther

text \<open>
  How \<open>replaceAll\<close> calls \<open>wrapReplacer\<close>: with the matched text and the captures 1 to 6.
  A capture that is \<open>undefined\<close> where the callee concatenates it would read
  \<open>undefined\<close>.
\<close>

definition arg :: "rmatch \<Rightarrow> nat \<Rightarrow> string" where
  "arg m n = (case caps m n of None \<Rightarrow> ''undefined'' | Some x \<Rightarrow> x)"

text \<open>The six captures by the names the replacers give them.\<close>

definition prefixOf :: "rmatch \<Rightarrow> string" where
  "prefixOf m = arg m 1"

definition numExpOf :: "rmatch \<Rightarrow> string" where
  "numExpOf m = arg m 2"

definition signPartOf :: "rmatch \<Rightarrow> string" where
  "signPartOf m = arg m 3"

definition intPartOf :: "rmatch \<Rightarrow> string" where
  "intPartOf m = arg m 4"

definition fracPartOf :: "rmatch \<Rightarrow> string option" where
  "fracPartOf m = caps m 5"

definition expPartOf :: "rmatch \<Rightarrow> string" where
  "expPartOf m = arg m 6"

text \<open>
  The two values of \<open>wrapReplacer\<close> (lines 146 and 148): \<open>exponentialToFixedReplacer\<close>
  itself, and \<^verbatim>\<open>(match, prefix, numExp) => prefix + replacer(numExp)\<close>.  The caller's
  replacer returns a string, as its declared type says (the concatenation would convert
  a value of another type to one).
\<close>

definition defaultReplacer :: "'s replacer" where
  "defaultReplacer m s =
     (exponentialToFixedReplacer (matched m) (prefixOf m) (numExpOf m) (signPartOf m)
        (intPartOf m) (fracPartOf m) (expPartOf m), s)"

definition customReplacer :: "(string \<Rightarrow> 's \<Rightarrow> string \<times> 's) \<Rightarrow> 's replacer" where
  "customReplacer replacer m s =
     (case replacer (numExpOf m) s of (r, s') \<Rightarrow> (Inr (prefixOf m @ r), s'))"

text \<open>
  The exported function (lines 139 to 155): the check of \<open>json\<close>, then the choice of
  \<open>wrapReplacer\<close> with the check of \<open>replacer\<close>, then \<open>lastIndex = 0\<close> and
  \<open>replaceAll\<close>.
\<close>

definition jsonReplaceExponentials ::
  "'s jsval \<Rightarrow> 's jsval \<Rightarrow> 's world \<Rightarrow> (error + string) \<times> 's world"
where
  "jsonReplaceExponentials json replacer w =
     (case json of
        JString src \<Rightarrow>
          (case replacer of
             JUndefined \<Rightarrow>
               replaceAll jsonWithNumberExpRE src defaultReplacer (w\<lparr>lastIndex := 0\<rparr>)
           | JFunction f \<Rightarrow>
               replaceAll jsonWithNumberExpRE src (customReplacer f) (w\<lparr>lastIndex := 0\<rparr>)
           | _ \<Rightarrow> (Inl (TypeError ''replacer must be a function''), w))
      | _ \<Rightarrow> (Inl (TypeError ''json must be a string''), w))"

section \<open>Notions for the properties\<close>

subsection \<open>Digits and fixed-point texts\<close>

definition isdigit :: "char \<Rightarrow> bool" where
  "isdigit x = in_class digit x"

definition digits :: "string \<Rightarrow> bool" where
  "digits u = list_all isdigit u"

text \<open>
  The integer part of an unsigned fixed-point text is what stands before the decimal
  point.  It has no redundant leading zero when it is not empty and is \<open>0\<close> or does not
  start with \<open>0\<close>.
\<close>

definition integerPart :: "string \<Rightarrow> string" where
  "integerPart u = takeWhile (\<lambda>x. x \<noteq> CHR ''.'') u"

definition noRedundantZeros :: "string \<Rightarrow> bool" where
  "noRedundantZeros ip = (case ip of [] \<Rightarrow> False | x # xs \<Rightarrow> x \<noteq> CHR ''0'' \<or> xs = [])"

text \<open>
  An unsigned text in fixed-point notation: digits and decimal points only, at least one
  digit, at most one decimal point.
\<close>

definition fixedShape :: "string \<Rightarrow> bool" where
  "fixedShape u =
     (list_all (\<lambda>x. isdigit x \<or> x = CHR ''.'') u \<and> list_ex isdigit u
      \<and> length (filter (\<lambda>x. x = CHR ''.'') u) \<le> 1)"

subsection \<open>String literals, and the text outside them\<close>

text \<open>\<open>rep Q\<close> holds of the texts that are sequences of texts of which \<open>Q\<close> holds.\<close>

inductive rep :: "(string \<Rightarrow> bool) \<Rightarrow> string \<Rightarrow> bool" for Q where
  rep_Nil: "rep Q []"
| rep_App: "Q u \<Longrightarrow> rep Q v \<Longrightarrow> rep Q (u @ v)"

definition hex :: "char \<Rightarrow> bool" where
  "hex x = in_class hexdigit x"

definition control :: "char \<Rightarrow> bool" where
  "control x = ((of_char x :: nat) \<le> 0x1F)"

text \<open>
  A JSON string literal (RFC 7158, section 7): between two double quotes, a sequence of
  items, each of them a character that is no control character, backslash or double
  quote, or a backslash and one of \<^verbatim>\<open>" \ / b f n r t\<close>, or a backslash, \<open>u\<close> and four
  hexadecimal digits.
\<close>

definition stringItem :: "string \<Rightarrow> bool" where
  "stringItem u =
     ((\<exists>x. u = [x] \<and> \<not> control x \<and> x \<noteq> bs \<and> x \<noteq> dq)
      \<or> (\<exists>x. u = [bs, x] \<and> x \<in> set (dq # bs # ''/bfnrt''))
      \<or> (\<exists>a b c d. u = [bs, CHR ''u'', a, b, c, d] \<and> hex a \<and> hex b \<and> hex c \<and> hex d))"

definition stringLiteral :: "string \<Rightarrow> bool" where
  "stringLiteral l = (\<exists>body. l = dq # body @ [dq] \<and> rep stringItem body)"

text \<open>
  A text is \<open>outside\<close> when it is a sequence of whole string literals and of single
  characters other than the double quote: read from its start, it ends outside every
  string literal.
\<close>

definition skipped :: "string \<Rightarrow> bool" where
  "skipped u = (stringLiteral u \<or> (\<exists>x. u = [x] \<and> x \<noteq> dq))"

definition outside :: "string \<Rightarrow> bool" where
  "outside p = rep skipped p"

subsection \<open>Numbers in exponential notation\<close>

text \<open>
  The parts of a number in exponential notation: a sign that is empty or \<open>-\<close>, an integer
  part of one or more digits, possibly a fractional part of one or more digits, the
  letter \<open>e\<close> or \<open>E\<close>, and an exponent of one or more digits after an optional \<open>+\<close> or
  \<open>-\<close>; and the text they make.
\<close>

definition expNumber :: "string \<Rightarrow> string \<Rightarrow> string option \<Rightarrow> char \<Rightarrow> string \<Rightarrow> bool" where
  "expNumber sg ip fp x ex =
     ((sg = [] \<or> sg = ''-'') \<and> ip \<noteq> [] \<and> digits ip
      \<and> (case fp of None \<Rightarrow> True | Some f \<Rightarrow> f \<noteq> [] \<and> digits f)
      \<and> (x = CHR ''e'' \<or> x = CHR ''E'')
      \<and> (\<exists>es ed. ex = es @ ed \<and> (es = [] \<or> es = ''+'' \<or> es = ''-'') \<and> ed \<noteq> [] \<and> digits ed))"

definition numExpText :: "string \<Rightarrow> string \<Rightarrow> string option \<Rightarrow> char \<Rightarrow> string \<Rightarrow> string" where
  "numExpText sg ip fp x ex =
     sg @ ip @ (case fp of None \<Rightarrow> [] | Some f \<Rightarrow> CHR ''.'' # f) @ [x] @ ex"

definition expNumberText :: "string \<Rightarrow> bool" where
  "expNumberText t = (\<exists>sg ip fp x ex. t = numExpText sg ip fp x ex \<and> expNumber sg ip fp x ex)"

subsection \<open>The matches of a document\<close>

text \<open>
  The matches \<open>replaceAll\<close> collects in a document, the exponent of a match as the
  default replacer reads it, and the text of the document after the last match.
\<close>

definition matches :: "string \<Rightarrow> rmatch list" where
  "matches json = fst (collect jsonWithNumberExpRE json 0)"

definition exponentOf :: "rmatch \<Rightarrow> int" where
  "exponentOf m = Number (expPartOf m)"

definition outOfRange :: "rmatch \<Rightarrow> bool" where
  "outOfRange m = (1000 < exponentOf m \<or> exponentOf m < - 1000)"

definition trailing :: "string \<Rightarrow> string" where
  "trailing json = drop (length (concat (map matched (matches json)))) json"

text \<open>What every match of the module's pattern is made of.\<close>

definition wellFormed :: "rmatch \<Rightarrow> bool" where
  "wellFormed m =
     (\<exists>p sg ip fp x ex.
        matched m = p @ numExpText sg ip fp x ex \<and> outside p \<and> expNumber sg ip fp x ex
        \<and> prefixOf m = p \<and> numExpOf m = numExpText sg ip fp x ex
        \<and> signPartOf m = sg \<and> intPartOf m = ip \<and> fracPartOf m = fp \<and> expPartOf m = ex)"

text \<open>
  Which number a match takes.  A text has a \<open>numberAhead\<close> when it starts with a number in
  exponential notation, and a \<open>digitAhead\<close> when it starts with a digit.  A text has a
  \<open>numberOutside\<close> when a number in exponential notation stands in it after a sequence of
  whole string literals and characters other than the double quote.

  A match of a document is \<open>firstWhole\<close> when its number text is whole and is the first
  one: no digit follows it in the document, so that no digit of the exponent is left
  behind; and no number in exponential notation starts earlier, at a place of the prefix
  outside the string literals, so that the number text starts with the first character
  that can start it, the sign where there is one.
\<close>

definition numberAhead :: "string \<Rightarrow> bool" where
  "numberAhead s = (\<exists>t r. s = t @ r \<and> expNumberText t)"

definition digitAhead :: "string \<Rightarrow> bool" where
  "digitAhead s = (case s of [] \<Rightarrow> False | x # _ \<Rightarrow> isdigit x)"

definition numberOutside :: "string \<Rightarrow> bool" where
  "numberOutside s = (\<exists>pre t post. s = pre @ t @ post \<and> outside pre \<and> expNumberText t)"

definition firstWhole :: "string \<Rightarrow> rmatch \<Rightarrow> bool" where
  "firstWhole json m =
     (\<not> digitAhead (drop (index m + length (matched m)) json)
      \<and> (\<forall>a b. prefixOf m = a @ b \<and> b \<noteq> [] \<and> outside a \<longrightarrow>
             \<not> numberAhead (b @ numExpOf m @ drop (index m + length (matched m)) json)))"

subsection \<open>Replacers\<close>

text \<open>A replacer without effects: its result depends on its argument only.\<close>

definition pureFunc :: "(string \<Rightarrow> string) \<Rightarrow> 's jsval" where
  "pureFunc g = JFunction (\<lambda>x s. (g x, s))"

text \<open>
  A function called on each text of a list in turn, from left to right, the effects of
  one call passed on to the next; the results are listed in the same order.
\<close>

fun callEach :: "(string \<Rightarrow> 's \<Rightarrow> string \<times> 's) \<Rightarrow> string list \<Rightarrow> 's \<Rightarrow> string list \<times> 's" where
  "callEach f [] s = ([], s)"
| "callEach f (x # xs) s =
     (case f x s of (r, s') \<Rightarrow> (case callEach f xs s' of (rs, s'') \<Rightarrow> (r # rs, s'')))"

subsection \<open>The value of a number text\<close>

text \<open>
  The rational number a decimal text denotes: \<open>decimalValue\<close> for an integer part and a
  fractional part, \<open>exponentialValue\<close> for the parts of a number in exponential
  notation, \<open>fixedValue\<close> for a text in fixed-point notation with its sign and
  \<open>unsignedValue\<close> for one without.
\<close>

definition decimalValue :: "string \<Rightarrow> string \<Rightarrow> rat" where
  "decimalValue ip fp = of_nat (digits_val (ip @ fp)) / 10 ^ length fp"

definition exponentialValue :: "string \<Rightarrow> string \<Rightarrow> string \<Rightarrow> int \<Rightarrow> rat" where
  "exponentialValue sg ip fp e =
     (if sg = ''-'' then - 1 else 1) * decimalValue ip fp
     * (if 0 \<le> e then 10 ^ nat e else 1 / 10 ^ nat (- e))"

definition unsignedValue :: "string \<Rightarrow> rat" where
  "unsignedValue u =
     decimalValue (takeWhile (\<lambda>x. x \<noteq> CHR ''.'') u) (drop 1 (dropWhile (\<lambda>x. x \<noteq> CHR ''.'') u))"

definition fixedValue :: "string \<Rightarrow> rat" where
  "fixedValue t =
     (let neg = (take 1 t = ''-'');
          u = (if neg then drop 1 t else t);
          ip = takeWhile (\<lambda>x. x \<noteq> CHR ''.'') u;
          fp = drop 1 (dropWhile (\<lambda>x. x \<noteq> CHR ''.'') u)
      in (if neg then - 1 else 1) * decimalValue ip fp)"

subsection \<open>The work of the matcher\<close>

text \<open>
  \<open>tests r st\<close> counts the character tests made while every alternative of \<open>ms r st\<close>
  is tried: one for each time a character class is held against the input.  When the
  match fails, a backtracking matcher has tried every alternative, so this is the number
  of character tests it made before it gave up.
\<close>

function tests :: "regex \<Rightarrow> mstate \<Rightarrow> nat" where
  "tests (Chars cs) st = 1"
| "tests (NotChars cs) st = 1"
| "tests Eps st = 0"
| "tests (Seq r1 r2) st = tests r1 st + sum_list (map (tests r2) (ms r1 st))"
| "tests (Alt r1 r2) st = tests r1 st + tests r2 st"
| "tests (Star r) st =
     tests r st
     + sum_list (map (tests (Star r)) (filter (\<lambda>st'. length (fst st') < length (fst st)) (ms r st)))"
| "tests (LazyStar r) st =
     tests r st
     + sum_list (map (tests (LazyStar r))
                  (filter (\<lambda>st'. length (fst st') < length (fst st)) (ms r st)))"
| "tests (Group n r) st = tests r st"
| "tests (Look r) st = tests r st"
  by pat_completeness auto
termination
  by (relation "measures [\<lambda>(r, st). size r, \<lambda>(r, st). length (fst st)]") auto

declare tests.simps(6) [simp del] tests.simps(7) [simp del]

text \<open>A run of \<open>n\<close> digits \<open>1\<close>.\<close>

definition ones :: "nat \<Rightarrow> string" where
  "ones n = replicate n (CHR ''1'')"

subsection \<open>Auxiliary notions of the proofs\<close>

text \<open>
  What \<open>removeLeadingZeros\<close> computes, by recursion: a leading \<open>0\<close> goes while a digit
  follows it.
\<close>

fun strip0 :: "string \<Rightarrow> string" where
  "strip0 (x # y # s) = (if x = CHR ''0'' \<and> isdigit y then strip0 (y # s) else x # y # s)"
| "strip0 s = s"

text \<open>
  A pattern without groups is \<open>sound\<close> for a set of texts when every match of it reads
  a text of the set and leaves the captures as they are.
\<close>

definition sound :: "regex \<Rightarrow> (string \<Rightarrow> bool) \<Rightarrow> bool" where
  "sound r Q = (\<forall>s c s' c'. (s', c') \<in> set (ms r (s, c)) \<longrightarrow> c' = c \<and> (\<exists>u. s = u @ s' \<and> Q u))"

text \<open>
  A pattern without groups is \<open>complete\<close> for a set of texts when it can read every text
  of the set, whatever follows it: one of the alternatives of the matcher stops right
  after the text.
\<close>

definition complete :: "regex \<Rightarrow> (string \<Rightarrow> bool) \<Rightarrow> bool" where
  "complete r Q = (\<forall>u s c. Q u \<longrightarrow> (s, c) \<in> set (ms r (u @ s, c)))"

text \<open>
  Matches that follow one another in a document from index \<open>n\<close> on, each starting where
  the one before it ended.
\<close>

fun consecutive :: "string \<Rightarrow> nat \<Rightarrow> rmatch list \<Rightarrow> bool" where
  "consecutive S n [] = True"
| "consecutive S n (m # rs) =
     (index m = n \<and> matched m = take (length (matched m)) (drop n S)
      \<and> n + length (matched m) \<le> length S
      \<and> consecutive S (n + length (matched m)) rs)"

text \<open>The replacer called on each match in turn, its effects passed along.\<close>

fun replaceEach :: "'s replacer \<Rightarrow> rmatch list \<Rightarrow> 's \<Rightarrow> (error + string list) \<times> 's" where
  "replaceEach f [] s = (Inr [], s)"
| "replaceEach f (m # rs) s =
     (case f m s of
        (Inl err, s') \<Rightarrow> (Inl err, s')
      | (Inr r, s') \<Rightarrow>
          (case replaceEach f rs s' of
             (Inl err, s'') \<Rightarrow> (Inl err, s'')
           | (Inr xs, s'') \<Rightarrow> (Inr (r # xs), s'')))"

section \<open>Lemmas\<close>


subsection \<open>The state of the shared pattern\<close>

lemma collect_lastIndex: "snd (collect R S li) = 0"
proof (induction R S li rule: collect.induct)
  case (1 R S lastIndex)
  show ?case
  proof (cases "RegExpBuiltinExec R S lastIndex")
    case (Pair r li)
    show ?thesis
    proof (cases r)
      case None
      with Pair show ?thesis
        by (auto simp: collect.simps[of R S lastIndex] RegExpBuiltinExec_def Let_def
                 split: if_splits list.splits)
    next
      case (Some m)
      with Pair "1.IH"[OF Pair[symmetric] Some] show ?thesis
        by (auto simp: collect.simps[of R S lastIndex] split: prod.splits if_splits)
    qed
  qed
qed

lemma splice_pure:
  "splice S (customReplacer (\<lambda>x s. (g x, s))) n acc rs s
   = (fst (splice S (customReplacer (\<lambda>x s. (g x, s))) n acc rs s'), s)"
  by (induction rs arbitrary: n acc) (auto simp: customReplacer_def)

lemma splice_default:
  "splice S defaultReplacer n acc rs s = (fst (splice S defaultReplacer n acc rs s'), s)"
  by (induction rs arbitrary: n acc) (auto simp: defaultReplacer_def split: sum.splits)

subsection \<open>Leading zeros\<close>

text \<open>
  The pattern for leading zeros, with its greedy \<open>0+\<close> and its lookahead, removes what
  \<open>strip0\<close> removes.
\<close>

lemma in_class_single [simp]: "in_class [(a, a)] x \<longleftrightarrow> x = a"
  by (auto simp: in_class_def in_range_def)

lemma ms_Lit [simp]:
  "ms (Lit a) (s, c) = (case s of [] \<Rightarrow> [] | x # xs \<Rightarrow> if x = a then [(xs, c)] else [])"
  by (simp add: Lit_def split: list.splits)

lemma ms_Star_Chars_Nil [simp]: "ms (Star (Chars cs)) ([], c) = [([], c)]"
  by (simp add: ms.simps(6))

lemma ms_Star_Chars_Cons [simp]:
  "ms (Star (Chars cs)) (x # xs, c)
   = (if in_class cs x then ms (Star (Chars cs)) (xs, c) else []) @ [(x # xs, c)]"
  by (simp add: ms.simps(6))

lemma isdigit_0 [simp]: "isdigit (CHR ''0'')"
  by (simp add: isdigit_def in_class_def in_range_def digit_def)

lemma zeros_then_look:
  "(case concat (map (ms (Look (Chars digit))) (ms (Star (Lit CHR ''0'')) (s, c))) of
      [] \<Rightarrow> CHR ''0'' # s | st # _ \<Rightarrow> fst st) = strip0 (CHR ''0'' # s)"
proof -
  define L where
    "L = (\<lambda>s. concat (map (ms (Look (Chars digit))) (ms (Star (Lit CHR ''0'')) (s, c))))"
  have L_Nil: "L [] = []"
    by (simp add: L_def Lit_def)
  have L_Cons: "L (y # s) = (if y = CHR ''0'' then L s else [])
                            @ (if isdigit y then [(y # s, c)] else [])" for y s
    by (simp add: L_def Lit_def isdigit_def)
  have "(case L s of [] \<Rightarrow> CHR ''0'' # s | st # _ \<Rightarrow> fst st) = strip0 (CHR ''0'' # s)"
  proof (induction s)
    case Nil
    show ?case by (simp add: L_Nil)
  next
    case (Cons y s)
    show ?case
    proof (cases "y = CHR ''0''")
      case True
      with Cons show ?thesis
        by (cases "L s") (simp_all add: L_Cons)
    next
      case False
      then show ?thesis
        by (cases s) (simp_all add: L_Cons)
    qed
  qed
  then show ?thesis by (simp only: L_def)
qed

lemma removeLeadingZeros_strip0: "removeLeadingZeros u = strip0 u"
proof (cases u)
  case Nil
  then show ?thesis by (simp add: removeLeadingZeros_def leadingZerosRE_def Plus_def)
next
  case (Cons x s)
  show ?thesis
  proof (cases "x = CHR ''0''")
    case True
    with Cons zeros_then_look[of s Map.empty] show ?thesis
      by (simp add: removeLeadingZeros_def leadingZerosRE_def Plus_def)
  next
    case False
    with Cons show ?thesis
      by (cases s) (simp_all add: removeLeadingZeros_def leadingZerosRE_def Plus_def)
  qed
qed

subsection \<open>The shape of the converter's result\<close>

lemma isdigit_not_dot [simp]: "isdigit x \<Longrightarrow> x \<noteq> CHR ''.''"
  by (auto simp: isdigit_def in_class_def in_range_def digit_def)

lemma not_isdigit_dot [simp]: "\<not> isdigit (CHR ''.'')"
  by (auto simp: isdigit_def in_class_def in_range_def digit_def)

lemma isdigit_not_e: "isdigit x \<Longrightarrow> x \<noteq> CHR ''e'' \<and> x \<noteq> CHR ''E''"
  by (auto simp: isdigit_def in_class_def in_range_def digit_def)

lemma strip0_all: "list_all Q u \<Longrightarrow> list_all Q (strip0 u)"
  by (induction u rule: strip0.induct) auto

lemma strip0_dots:
  "filter (\<lambda>x. x = CHR ''.'') (strip0 u) = filter (\<lambda>x. x = CHR ''.'') u"
  by (induction u rule: strip0.induct) auto

lemma strip0_hd: "u \<noteq> [] \<Longrightarrow> isdigit (hd u) \<Longrightarrow> strip0 u \<noteq> [] \<and> isdigit (hd (strip0 u))"
  by (induction u rule: strip0.induct) auto

lemma strip0_zero_digit: "strip0 u = CHR ''0'' # y # s \<Longrightarrow> \<not> isdigit y"
  by (induction u arbitrary: y s rule: strip0.induct) (auto split: if_splits)

lemma fixedShape_strip0:
  assumes "fixedShape u" "isdigit (hd u)"
  shows "fixedShape (strip0 u) \<and> isdigit (hd (strip0 u))"
proof -
  from assms have ne: "u \<noteq> []" by (auto simp: fixedShape_def)
  from strip0_hd[OF ne assms(2)] have h: "strip0 u \<noteq> []" "isdigit (hd (strip0 u))" by auto
  then have "list_ex isdigit (strip0 u)" by (cases "strip0 u") auto
  with assms(1) h show ?thesis
    by (simp add: fixedShape_def strip0_all strip0_dots)
qed

lemma noRedundantZeros_strip0:
  assumes "list_all (\<lambda>x. isdigit x \<or> x = CHR ''.'') u" "u \<noteq> []" "isdigit (hd u)"
  shows "noRedundantZeros (integerPart (strip0 u))"
proof -
  from strip0_hd[OF assms(2,3)] obtain x r where r: "strip0 u = x # r" and x: "isdigit x"
    by (cases "strip0 u") auto
  from strip0_all[OF assms(1)] r have allr: "list_all (\<lambda>x. isdigit x \<or> x = CHR ''.'') r"
    by simp
  show ?thesis
  proof (cases "x = CHR ''0''")
    case False
    with x r show ?thesis by (simp add: integerPart_def noRedundantZeros_def)
  next
    case True
    show ?thesis
    proof (cases r)
      case Nil
      with r True show ?thesis by (simp add: integerPart_def noRedundantZeros_def)
    next
      case (Cons y s)
      with r True strip0_zero_digit[of u y s] have "\<not> isdigit y" by simp
      with allr Cons have "y = CHR ''.''" by simp
      with r True Cons show ?thesis by (simp add: integerPart_def noRedundantZeros_def)
    qed
  qed
qed

lemma filter_dot_digits: "list_all isdigit u \<Longrightarrow> filter (\<lambda>x. x = CHR ''.'') u = []"
  by (induction u) auto

lemma digits_all: "list_all isdigit u \<Longrightarrow> list_all (\<lambda>x. isdigit x \<or> x = CHR ''.'') u"
  by (induction u) auto

lemma list_all_take: "list_all Q u \<Longrightarrow> list_all Q (take n u)"
  by (simp add: list_all_iff) (meson in_set_takeD)

lemma list_all_drop: "list_all Q u \<Longrightarrow> list_all Q (drop n u)"
  by (simp add: list_all_iff) (meson in_set_dropD)

lemma list_all_replicate0: "list_all isdigit (replicate n (CHR ''0''))"
  by (simp add: list_all_iff)

lemma fixedShapeI:
  assumes "\<And>x. x \<in> set u \<Longrightarrow> isdigit x \<or> x = CHR ''.''" "u \<noteq> []" "isdigit (hd u)"
    "length (filter (\<lambda>x. x = CHR ''.'') u) \<le> 1"
  shows "fixedShape u"
proof -
  from assms(2,3) have "list_ex isdigit u" by (cases u) auto
  with assms(1,4) show ?thesis by (simp add: fixedShape_def list_all_iff)
qed

lemma converter_shape:
  assumes ip: "ip \<noteq> []" "digits ip" and fp: "digits fp"
  shows "\<exists>u. exponentialPartsToFixed sg ip fp e = sg @ u \<and> fixedShape u \<and> isdigit (hd u)"
proof -
  from ip have ipB: "\<And>x. x \<in> set ip \<Longrightarrow> isdigit x" by (simp add: digits_def list_all_iff)
  from fp have fpB: "\<And>x. x \<in> set fp \<Longrightarrow> isdigit x" by (simp add: digits_def list_all_iff)
  from ip ipB have hdip: "isdigit (hd ip)" by (cases ip) auto
  have nodot: "filter (\<lambda>x. x = CHR ''.'') v = []" if "set v \<subseteq> set ip \<union> set fp" for v
  proof -
    have "CHR ''.'' \<notin> set v"
    proof
      assume "CHR ''.'' \<in> set v"
      with that have "CHR ''.'' \<in> set ip \<or> CHR ''.'' \<in> set fp" by auto
      with ipB fpB have "isdigit (CHR ''.'')" by blast
      then show False by simp
    qed
    then show ?thesis by (auto simp: filter_empty_conv)
  qed
  have n1: "filter (\<lambda>x. x = CHR ''.'') ip = []" by (rule nodot) simp
  have n2: "filter (\<lambda>x. x = CHR ''.'') fp = []" by (rule nodot) simp
  have n3: "filter (\<lambda>x. x = CHR ''.'') (take k fp) = []" for k
    by (rule nodot) (auto dest: in_set_takeD)
  have n4: "filter (\<lambda>x. x = CHR ''.'') (drop k fp) = []" for k
    by (rule nodot) (auto dest: in_set_dropD)
  have n5: "filter (\<lambda>x. x = CHR ''.'') (take k ip) = []" for k
    by (rule nodot) (auto dest: in_set_takeD)
  have n6: "filter (\<lambda>x. x = CHR ''.'') (drop k ip) = []" for k
    by (rule nodot) (auto dest: in_set_dropD)
  show ?thesis
  proof (cases "e \<ge> 0")
    case True
    define unsigned where "unsigned =
      (if int (length fp) \<le> e then ip @ fp @ replicate (nat (e - int (length fp))) CHR ''0''
       else ip @ take (nat e) fp @ ''.'' @ drop (nat e) fp)"
    from ip hdip have hd: "unsigned \<noteq> []" "isdigit (hd unsigned)"
      by (auto simp: unsigned_def)
    have all: "isdigit x \<or> x = CHR ''.''" if "x \<in> set unsigned" for x
      using that ipB fpB
      by (auto simp: unsigned_def split: if_splits dest: in_set_takeD in_set_dropD)
    have dots: "length (filter (\<lambda>x. x = CHR ''.'') unsigned) \<le> 1"
      by (simp add: unsigned_def n1 n2 n3 n4)
    from fixedShape_strip0[OF fixedShapeI[OF all hd dots] hd(2)] True show ?thesis
      by (simp add: exponentialPartsToFixed_def Let_def unsigned_def[symmetric]
          removeLeadingZeros_strip0)
  next
    case False
    show ?thesis
    proof (cases "int (length ip) > - e")
      case True
      define u where "u = take (nat (- e)) ip @ ''.'' @ drop (nat (- e)) ip @ fp"
      from False True ip hdip have hd: "u \<noteq> []" "isdigit (hd u)"
        by (cases ip; cases "nat (- e)"; auto simp: u_def)+
      have all: "isdigit x \<or> x = CHR ''.''" if "x \<in> set u" for x
        using that ipB fpB by (auto simp: u_def dest: in_set_takeD in_set_dropD)
      have dots: "length (filter (\<lambda>x. x = CHR ''.'') u) \<le> 1"
        by (simp add: u_def n1 n2 n5 n6)
      from fixedShapeI[OF all hd dots] hd False True show ?thesis
        by (simp add: exponentialPartsToFixed_def Let_def u_def)
    next
      case b: False
      define u where "u = ''0.'' @ replicate (nat (- e - int (length ip))) CHR ''0'' @ ip @ fp"
      have hd: "u \<noteq> []" "isdigit (hd u)" by (simp_all add: u_def)
      have all: "isdigit x \<or> x = CHR ''.''" if "x \<in> set u" for x
        using that ipB fpB by (auto simp: u_def)
      have dots: "length (filter (\<lambda>x. x = CHR ''.'') u) \<le> 1"
        by (simp add: u_def n1 n2)
      from fixedShapeI[OF all hd dots] hd False b show ?thesis
        by (simp add: exponentialPartsToFixed_def Let_def u_def)
    qed
  qed
qed

lemma converter_trimmed:
  assumes ip: "ip \<noteq> []" "digits ip" and fp: "digits fp"
    and e: "e \<ge> 0 \<or> noRedundantZeros ip"
  shows "\<exists>u. exponentialPartsToFixed sg ip fp e = sg @ u \<and> noRedundantZeros (integerPart u)"
proof -
  from ip have ipB: "\<And>x. x \<in> set ip \<Longrightarrow> isdigit x" by (simp add: digits_def list_all_iff)
  from fp have fpB: "\<And>x. x \<in> set fp \<Longrightarrow> isdigit x" by (simp add: digits_def list_all_iff)
  from ip ipB have hdip: "isdigit (hd ip)" by (cases ip) auto
  show ?thesis
  proof (cases "e \<ge> 0")
    case True
    define unsigned where "unsigned =
      (if int (length fp) \<le> e then ip @ fp @ replicate (nat (e - int (length fp))) CHR ''0''
       else ip @ take (nat e) fp @ ''.'' @ drop (nat e) fp)"
    from ip hdip have hd: "unsigned \<noteq> []" "isdigit (hd unsigned)"
      by (auto simp: unsigned_def)
    have all: "list_all (\<lambda>x. isdigit x \<or> x = CHR ''.'') unsigned"
      using ipB fpB
      by (auto simp: unsigned_def list_all_iff split: if_splits dest: in_set_takeD in_set_dropD)
    from noRedundantZeros_strip0[OF all hd] True show ?thesis
      by (simp add: exponentialPartsToFixed_def Let_def unsigned_def[symmetric]
          removeLeadingZeros_strip0)
  next
    case False
    with e have nz: "noRedundantZeros ip" by simp
    show ?thesis
    proof (cases "int (length ip) > - e")
      case True
      with False obtain n where n: "nat (- e) = Suc n" "Suc n < length ip"
        by (cases "nat (- e)") auto
      then obtain x y r where xr: "ip = x # y # r" by (cases ip; cases "tl ip") auto
      with nz have x0: "x \<noteq> CHR ''0''" by (simp add: noRedundantZeros_def)
      have tk: "takeWhile (\<lambda>x. x \<noteq> CHR ''.'') (take n (y # r)) = take n (y # r)"
        using ipB[of "CHR ''.''"] xr by (auto simp: takeWhile_eq_all_conv dest!: in_set_takeD)
      from ipB[of x] xr have xd: "x \<noteq> CHR ''.''" by auto
      from x0 xd have "noRedundantZeros (integerPart (take (Suc n) ip @ ''.'' @ drop (Suc n) ip @ fp))"
        by (simp add: xr integerPart_def noRedundantZeros_def tk)
      with False True n show ?thesis
        by (simp add: exponentialPartsToFixed_def Let_def)
    next
      case b: False
      with False show ?thesis
        by (simp add: exponentialPartsToFixed_def Let_def integerPart_def noRedundantZeros_def)
    qed
  qed
qed

subsection \<open>What a match can have read\<close>

text \<open>
  Soundness of the matcher for the patterns of the module: whatever alternative the
  matcher takes, the text it has read belongs to the grammar of the pattern.  The
  properties of the matches rest on this alone, not on which alternative comes first.
\<close>

lemma soundD: "sound r Q \<Longrightarrow> (s', c') \<in> set (ms r (s, c)) \<Longrightarrow> c' = c \<and> (\<exists>u. s = u @ s' \<and> Q u)"
  by (simp add: sound_def)

lemma sound_weaken: "sound r Q \<Longrightarrow> (\<And>u. Q u \<Longrightarrow> Q' u) \<Longrightarrow> sound r Q'"
  unfolding sound_def by blast

lemma sound_Chars: "sound (Chars cs) (\<lambda>u. \<exists>x. u = [x] \<and> in_class cs x)"
  unfolding sound_def by (auto split: list.splits if_splits)

lemma sound_NotChars: "sound (NotChars cs) (\<lambda>u. \<exists>x. u = [x] \<and> \<not> in_class cs x)"
  unfolding sound_def by (auto split: list.splits if_splits)

lemma sound_Lit: "sound (Lit a) (\<lambda>u. u = [a])"
  unfolding sound_def by (auto split: list.splits if_splits)

lemma sound_Eps: "sound Eps (\<lambda>u. u = [])"
  unfolding sound_def by auto

lemma sound_Seq:
  assumes "sound r1 Q1" "sound r2 Q2"
  shows "sound (Seq r1 r2) (\<lambda>u. \<exists>u1 u2. u = u1 @ u2 \<and> Q1 u1 \<and> Q2 u2)"
  unfolding sound_def
proof (intro allI impI)
  fix s c s' c'
  assume "(s', c') \<in> set (ms (Seq r1 r2) (s, c))"
  then obtain s1 c1 where 1: "(s1, c1) \<in> set (ms r1 (s, c))" and 2: "(s', c') \<in> set (ms r2 (s1, c1))"
    by auto
  from soundD[OF assms(1) 1] obtain u1 where u1: "c1 = c" "s = u1 @ s1" "Q1 u1" by blast
  from soundD[OF assms(2) 2] obtain u2 where u2: "c' = c1" "s1 = u2 @ s'" "Q2 u2" by blast
  from u1 u2 have "s = (u1 @ u2) @ s'" by simp
  with u1 u2 show "c' = c \<and> (\<exists>u. s = u @ s' \<and> (\<exists>u1 u2. u = u1 @ u2 \<and> Q1 u1 \<and> Q2 u2))"
    by blast
qed

lemma sound_Alt:
  assumes "sound r1 Q1" "sound r2 Q2"
  shows "sound (Alt r1 r2) (\<lambda>u. Q1 u \<or> Q2 u)"
  unfolding sound_def
proof (intro allI impI)
  fix s c s' c'
  assume "(s', c') \<in> set (ms (Alt r1 r2) (s, c))"
  then have "(s', c') \<in> set (ms r1 (s, c)) \<or> (s', c') \<in> set (ms r2 (s, c))" by simp
  with soundD[OF assms(1)] soundD[OF assms(2)]
  show "c' = c \<and> (\<exists>u. s = u @ s' \<and> (Q1 u \<or> Q2 u))" by blast
qed

lemma sound_Star_aux:
  assumes r: "sound r Q"
    and step: "\<And>st. set (ms R st) \<subseteq>
           insert st (\<Union>m \<in> {m \<in> set (ms r st). length (fst m) < length (fst st)}. set (ms R m))"
  shows "sound R (rep Q)"
  unfolding sound_def
proof (intro allI impI)
  fix s c s' c'
  assume "(s', c') \<in> set (ms R (s, c))"
  then show "c' = c \<and> (\<exists>u. s = u @ s' \<and> rep Q u)"
  proof (induction "length s" arbitrary: s c rule: less_induct)
    case less
    from less.prems step[of "(s, c)"] consider "(s', c') = (s, c)"
      | m where "m \<in> set (ms r (s, c))" "length (fst m) < length s" "(s', c') \<in> set (ms R m)"
      by auto
    then show ?case
    proof cases
      case 1
      then show ?thesis by (auto intro: rep_Nil)
    next
      case 2
      obtain s1 c1 where m: "m = (s1, c1)" by (cases m)
      from soundD[OF r 2(1)[unfolded m]] obtain u1 where u1: "c1 = c" "s = u1 @ s1" "Q u1"
        by blast
      from less.hyps[of s1 c1] 2(2,3) m obtain u2 where u2: "c' = c1" "s1 = u2 @ s'" "rep Q u2"
        by auto
      from u1 u2 have "s = (u1 @ u2) @ s'" "rep Q (u1 @ u2)" by (auto intro: rep_App)
      with u1 u2 show ?thesis by blast
    qed
  qed
qed

lemma sound_Star: "sound r Q \<Longrightarrow> sound (Star r) (rep Q)"
proof (erule sound_Star_aux)
  fix st
  have "set (ms (Star r) st) = insert st
      (\<Union>m \<in> {m \<in> set (ms r st). length (fst m) < length (fst st)}. set (ms (Star r) m))"
    by (subst ms.simps(6)) auto
  then show "set (ms (Star r) st) \<subseteq> insert st
      (\<Union>m \<in> {m \<in> set (ms r st). length (fst m) < length (fst st)}. set (ms (Star r) m))"
    by simp
qed

lemma sound_LazyStar: "sound r Q \<Longrightarrow> sound (LazyStar r) (rep Q)"
proof (erule sound_Star_aux)
  fix st
  have "set (ms (LazyStar r) st) = insert st
      (\<Union>m \<in> {m \<in> set (ms r st). length (fst m) < length (fst st)}. set (ms (LazyStar r) m))"
    by (subst ms.simps(7)) auto
  then show "set (ms (LazyStar r) st) \<subseteq> insert st
      (\<Union>m \<in> {m \<in> set (ms r st). length (fst m) < length (fst st)}. set (ms (LazyStar r) m))"
    by simp
qed

lemma rep_chars_all:
  "rep (\<lambda>u. \<exists>x. u = [x] \<and> in_class cs x) u \<Longrightarrow> list_all (in_class cs) u"
  by (induction rule: rep.induct) auto

lemma isdigit_eq: "isdigit = in_class digit"
  by (rule ext) (simp add: isdigit_def)

lemma sound_Plus_digit: "sound (Plus (Chars digit)) (\<lambda>u. u \<noteq> [] \<and> digits u)"
  unfolding Plus_def
  by (rule sound_weaken[OF sound_Seq[OF sound_Chars sound_Star[OF sound_Chars]]])
     (auto simp: digits_def isdigit_eq dest: rep_chars_all)

lemma sound_Opt: "sound r Q \<Longrightarrow> sound (Opt r) (\<lambda>u. Q u \<or> u = [])"
  unfolding Opt_def by (rule sound_Alt[OF _ sound_Eps])

lemma in_class_Cons: "in_class (r # cs) x \<longleftrightarrow> in_range r x \<or> in_class cs x"
  by (simp add: in_class_def)

lemma in_class_Nil: "\<not> in_class [] x"
  by (simp add: in_class_def)

lemma in_range_single: "in_range (a, a) x \<longleftrightarrow> x = a"
  by (auto simp: in_range_def)

lemma sound_stringChar: "sound stringChar stringItem"
  unfolding stringChar_def Rep4_def
  apply (rule sound_weaken[OF sound_Alt[OF sound_NotChars sound_Seq[OF sound_Lit
          sound_Alt[OF sound_Chars sound_Seq[OF sound_Lit sound_Seq[OF sound_Chars
          sound_Seq[OF sound_Chars sound_Seq[OF sound_Chars sound_Chars]]]]]]]])
  apply (erule disjE)
   apply (auto simp: stringItem_def in_class_Cons in_class_Nil in_range_single control_def
      in_range_def)[1]
  apply (elim exE conjE disjE)
   apply (auto simp: stringItem_def in_class_Cons in_class_Nil in_range_single hex_def)
  done

lemma sound_stringPattern: "sound stringPattern stringLiteral"
  unfolding stringPattern_def
  by (rule sound_weaken[OF sound_Seq[OF sound_Lit sound_Seq[OF
        sound_Star[OF sound_stringChar] sound_Lit]]])
     (auto simp: stringLiteral_def)

lemma sound_skipItem: "sound skipItem skipped"
  unfolding skipItem_def
  by (rule sound_weaken[OF sound_Alt[OF sound_stringPattern sound_NotChars]])
     (auto simp: skipped_def)

lemma sound_prefix: "sound (LazyStar skipItem) outside"
  unfolding outside_def by (rule sound_LazyStar[OF sound_skipItem])

lemma sound_Group:
  assumes "sound r Q" "(s', c') \<in> set (ms (Group n r) (s, c))"
  shows "\<exists>u. s = u @ s' \<and> Q u \<and> c' = c(n \<mapsto> u)"
proof -
  from assms(2) obtain c1 where 1: "(s', c1) \<in> set (ms r (s, c))"
    and c': "c' = c1(n \<mapsto> take (length s - length s') s)" by auto
  from soundD[OF assms(1) 1] obtain u where "c1 = c" "s = u @ s'" "Q u" by blast
  with c' show ?thesis by auto
qed

lemma in_ms_Seq:
  "st'' \<in> set (ms (Seq r1 r2) st) \<longleftrightarrow> (\<exists>st' \<in> set (ms r1 st). st'' \<in> set (ms r2 st'))"
  by auto

lemma numberExp_sound:
  assumes "(s', c') \<in> set (ms numberExpPattern (s, c))" and c5: "c 5 = None"
  shows "\<exists>sg ip fp x ex. s = numExpText sg ip fp x ex @ s' \<and> expNumber sg ip fp x ex
           \<and> c' 1 = c 1 \<and> c' 3 = Some sg \<and> c' 4 = Some ip \<and> c' 5 = fp \<and> c' 6 = Some ex"
proof -
  define T5 where "T5 = Seq (Chars [(CHR ''e'', CHR ''e''), (CHR ''E'', CHR ''E'')])
         (Group 6 (Seq (Opt (Chars [(CHR ''+'', CHR ''+''), (CHR ''-'', CHR ''-'')]))
                       (Plus (Chars digit))))"
  define T4 where "T4 = Seq (Opt (Seq (Lit CHR ''.'') (Group 5 (Plus (Chars digit))))) T5"
  define T3 where "T3 = Seq (Group 4 (Plus (Chars digit))) T4"
  have N: "numberExpPattern = Seq (Group 3 (Opt (Lit CHR ''-''))) T3"
    by (simp add: numberExpPattern_def T3_def T4_def T5_def)
  from assms(1) obtain s3 c3 where g3: "(s3, c3) \<in> set (ms (Group 3 (Opt (Lit CHR ''-''))) (s, c))"
    and t3: "(s', c') \<in> set (ms T3 (s3, c3))"
    unfolding N in_ms_Seq by auto
  from sound_Group[OF sound_Opt[OF sound_Lit] g3] obtain sg
    where sg: "s = sg @ s3" "sg = ''-'' \<or> sg = []" "c3 = c(3 \<mapsto> sg)" by blast
  from t3 obtain s4 c4 where g4: "(s4, c4) \<in> set (ms (Group 4 (Plus (Chars digit))) (s3, c3))"
    and t4: "(s', c') \<in> set (ms T4 (s4, c4))"
    unfolding T3_def in_ms_Seq by auto
  from sound_Group[OF sound_Plus_digit g4] obtain ip
    where ip: "s3 = ip @ s4" "ip \<noteq> []" "digits ip" "c4 = c3(4 \<mapsto> ip)" by blast
  from t4 obtain s5 c5
    where o5: "(s5, c5) \<in> set (ms (Opt (Seq (Lit CHR ''.'') (Group 5 (Plus (Chars digit))))) (s4, c4))"
    and t5: "(s', c') \<in> set (ms T5 (s5, c5))"
    unfolding T4_def in_ms_Seq by auto
  have "\<exists>fp. s4 = (case fp of None \<Rightarrow> [] | Some f \<Rightarrow> CHR ''.'' # f) @ s5
            \<and> (case fp of None \<Rightarrow> True | Some f \<Rightarrow> f \<noteq> [] \<and> digits f)
            \<and> c5 = (case fp of None \<Rightarrow> c4 | Some f \<Rightarrow> c4(5 \<mapsto> f))"
  proof -
    from o5 consider "(s5, c5) = (s4, c4)"
      | "(s5, c5) \<in> set (ms (Seq (Lit CHR ''.'') (Group 5 (Plus (Chars digit)))) (s4, c4))"
      unfolding Opt_def by auto
    then show ?thesis
    proof cases
      case 1
      then show ?thesis by (intro exI[of _ None]) simp
    next
      case 2
      then obtain sd cd where d: "(sd, cd) \<in> set (ms (Lit CHR ''.'') (s4, c4))"
        and g5: "(s5, c5) \<in> set (ms (Group 5 (Plus (Chars digit))) (sd, cd))"
        unfolding in_ms_Seq by auto
      from soundD[OF sound_Lit d] have d': "cd = c4" "s4 = CHR ''.'' # sd" by auto
      from sound_Group[OF sound_Plus_digit g5] obtain f
        where "sd = f @ s5" "f \<noteq> []" "digits f" "c5 = cd(5 \<mapsto> f)" by blast
      with d' show ?thesis by (intro exI[of _ "Some f"]) simp
    qed
  qed
  then obtain fp where fp: "s4 = (case fp of None \<Rightarrow> [] | Some f \<Rightarrow> CHR ''.'' # f) @ s5"
      "case fp of None \<Rightarrow> True | Some f \<Rightarrow> f \<noteq> [] \<and> digits f"
      "c5 = (case fp of None \<Rightarrow> c4 | Some f \<Rightarrow> c4(5 \<mapsto> f))" by blast
  from t5 obtain s6 c6
    where e6: "(s6, c6) \<in> set (ms (Chars [(CHR ''e'', CHR ''e''), (CHR ''E'', CHR ''E'')]) (s5, c5))"
    and g6: "(s', c') \<in> set (ms (Group 6 (Seq (Opt (Chars [(CHR ''+'', CHR ''+''), (CHR ''-'', CHR ''-'')]))
                       (Plus (Chars digit)))) (s6, c6))"
    unfolding T5_def in_ms_Seq by auto
  from soundD[OF sound_Chars e6] obtain x where x: "c6 = c5" "s5 = x # s6"
      "x = CHR ''e'' \<or> x = CHR ''E''"
    by (auto simp: in_class_Cons in_class_Nil in_range_single)
  from sound_Group[OF sound_Seq[OF sound_Opt[OF sound_Chars] sound_Plus_digit] g6]
  obtain ex where ex0: "s6 = ex @ s'" "c' = c6(6 \<mapsto> ex)"
    and "\<exists>es ed. ex = es @ ed
           \<and> ((\<exists>x. es = [x] \<and> in_class [(CHR ''+'', CHR ''+''), (CHR ''-'', CHR ''-'')] x) \<or> es = [])
           \<and> ed \<noteq> [] \<and> digits ed"
    by blast
  then obtain es ed where ex1: "ex = es @ ed" "es = [] \<or> es = ''+'' \<or> es = ''-''"
      "ed \<noteq> []" "digits ed"
    by (auto simp: in_class_Cons in_class_Nil in_range_single)
  note ex = ex0 ex1
  have "s = numExpText sg ip fp x ex @ s'"
    using sg ip fp x ex by (simp add: numExpText_def)
  moreover have "expNumber sg ip fp x ex"
    using sg ip fp x ex unfolding expNumber_def by blast
  moreover have "c' 1 = c 1 \<and> c' 3 = Some sg \<and> c' 4 = Some ip \<and> c' 5 = fp \<and> c' 6 = Some ex"
    using sg ip fp(3) x(1) ex(2) c5 by (cases fp) auto
  ultimately show ?thesis by blast
qed

lemma jsonWithNumberExpRE_sound:
  assumes "(s', c') \<in> set (ms jsonWithNumberExpRE (s, Map.empty))"
  shows "\<exists>p sg ip fp x ex. s = p @ numExpText sg ip fp x ex @ s' \<and> outside p
           \<and> expNumber sg ip fp x ex
           \<and> c' 1 = Some p \<and> c' 2 = Some (numExpText sg ip fp x ex)
           \<and> c' 3 = Some sg \<and> c' 4 = Some ip \<and> c' 5 = fp \<and> c' 6 = Some ex"
proof -
  from assms obtain s1 c1 where g1: "(s1, c1) \<in> set (ms (Group 1 (LazyStar skipItem)) (s, Map.empty))"
    and g2: "(s', c') \<in> set (ms (Group 2 numberExpPattern) (s1, c1))"
    unfolding jsonWithNumberExpRE_def in_ms_Seq by auto
  from sound_Group[OF sound_prefix g1] obtain p
    where p: "s = p @ s1" "outside p" "c1 = Map.empty(1 \<mapsto> p)" by blast
  from g2 obtain cn where n: "(s', cn) \<in> set (ms numberExpPattern (s1, c1))"
    and c': "c' = cn(2 \<mapsto> take (length s1 - length s') s1)" by auto
  from p(3) have "c1 5 = None" by simp
  from numberExp_sound[OF n this] obtain sg ip fp x ex
    where t: "s1 = numExpText sg ip fp x ex @ s'" "expNumber sg ip fp x ex"
      "cn 1 = c1 1" "cn 3 = Some sg" "cn 4 = Some ip" "cn 5 = fp" "cn 6 = Some ex" by blast
  from t(1) have "take (length s1 - length s') s1 = numExpText sg ip fp x ex" by simp
  with c' have c2: "c' 2 = Some (numExpText sg ip fp x ex)" by simp
  from c' t(3-7) p(3)
  have cs: "c' 1 = Some p" "c' 3 = Some sg" "c' 4 = Some ip" "c' 5 = fp" "c' 6 = Some ex"
    by simp_all
  from p(1) t(1) have "s = p @ numExpText sg ip fp x ex @ s'" by simp
  with p(2) t(2) c2 cs show ?thesis by blast
qed

lemma expNumber_nonempty: "expNumber sg ip fp x ex \<Longrightarrow> numExpText sg ip fp x ex \<noteq> []"
  by (simp add: numExpText_def)

lemma exec_sound:
  assumes "RegExpBuiltinExec jsonWithNumberExpRE S li = (Some m, e)"
  shows "wellFormed m \<and> index m = li \<and> e = li + length (matched m) \<and> e \<le> length S
         \<and> matched m \<noteq> [] \<and> matched m = take (length (matched m)) (drop li S)"
proof -
  from assms have le: "li \<le> length S"
    by (auto simp: RegExpBuiltinExec_def split: if_splits)
  from assms le obtain st sts where st: "ms jsonWithNumberExpRE (drop li S, Map.empty) = st # sts"
    and e: "e = length S - length (fst st)"
    and m: "m = \<lparr>index = li, matched = take (e - li) (drop li S), caps = snd st\<rparr>"
    by (auto simp: RegExpBuiltinExec_def Let_def split: if_splits list.splits)
  from st have "(fst st, snd st) \<in> set (ms jsonWithNumberExpRE (drop li S, Map.empty))" by simp
  from jsonWithNumberExpRE_sound[OF this] obtain p sg ip fp x ex
    where s: "drop li S = p @ numExpText sg ip fp x ex @ fst st" "outside p"
      "expNumber sg ip fp x ex"
      "snd st 1 = Some p" "snd st 2 = Some (numExpText sg ip fp x ex)"
      "snd st 3 = Some sg" "snd st 4 = Some ip" "snd st 5 = fp" "snd st 6 = Some ex" by blast
  from s(1) have len: "length S - li = length p + length (numExpText sg ip fp x ex) + length (fst st)"
    by (metis length_append length_drop add.assoc)
  with le e have eli: "e - li = length (p @ numExpText sg ip fp x ex)" by simp
  with s(1) have mt: "matched m = p @ numExpText sg ip fp x ex" by (simp add: m)
  have cm: "caps m = snd st" by (simp add: m)
  have "wellFormed m"
    unfolding wellFormed_def prefixOf_def numExpOf_def signPartOf_def intPartOf_def
      fracPartOf_def expPartOf_def arg_def cm
    using mt s(2-9) by (intro exI[of _ p] exI[of _ sg] exI[of _ ip] exI[of _ fp]
        exI[of _ x] exI[of _ ex]) simp
  moreover from mt expNumber_nonempty[OF s(3)] have "matched m \<noteq> []" by simp
  moreover from len le e mt have "e = li + length (matched m)" "e \<le> length S" by auto
  moreover from mt s(1) have "matched m = take (length (matched m)) (drop li S)" by simp
  moreover have "index m = li" by (simp add: m)
  ultimately show ?thesis by blast
qed

subsection \<open>The matches of a document and the result of the replacement\<close>

lemma collect_sound:
  "collect jsonWithNumberExpRE S li = (rs, l) \<Longrightarrow> consecutive S li rs \<and> list_all wellFormed rs"
proof (induction jsonWithNumberExpRE S li arbitrary: rs l rule: collect.induct)
  case (1 S lastIndex)
  show ?case
  proof (cases "RegExpBuiltinExec jsonWithNumberExpRE S lastIndex")
    case (Pair r e)
    show ?thesis
    proof (cases r)
      case None
      with Pair "1.prems" show ?thesis
        by (simp add: collect.simps[of jsonWithNumberExpRE S lastIndex])
    next
      case (Some m)
      from exec_sound[OF Pair[unfolded Some]]
      have m: "wellFormed m" "index m = lastIndex" "e = lastIndex + length (matched m)"
        "e \<le> length S" "matched m \<noteq> []" "matched m = take (length (matched m)) (drop lastIndex S)"
        by auto
      obtain rs' l' where c: "collect jsonWithNumberExpRE S e = (rs', l')"
        by (cases "collect jsonWithNumberExpRE S e")
      from "1.hyps"[OF Pair[symmetric] Some, of rs' l'] m(5) c
      have ih: "consecutive S e rs' \<and> list_all wellFormed rs'" by simp
      from "1.prems" Pair Some m(5) c have "rs = m # rs'"
        by (simp add: collect.simps[of jsonWithNumberExpRE S lastIndex])
      with ih m show ?thesis by simp
    qed
  qed
qed

lemma matches_sound: "consecutive json 0 (matches json) \<and> list_all wellFormed (matches json)"
  using collect_sound[of json 0 "fst (collect jsonWithNumberExpRE json 0)"
      "snd (collect jsonWithNumberExpRE json 0)"]
  by (simp add: matches_def)

lemma consecutive_decomp:
  "consecutive S n rs \<Longrightarrow>
   drop n S = concat (map matched rs) @ drop (n + length (concat (map matched rs))) S"
proof (induction rs arbitrary: n)
  case Nil
  show ?case by simp
next
  case (Cons m rs)
  then have a: "matched m = take (length (matched m)) (drop n S)"
    and b: "consecutive S (n + length (matched m)) rs" by simp_all
  define k where "k = length (matched m)"
  have "drop n S = take k (drop n S) @ drop k (drop n S)"
    by (rule append_take_drop_id[symmetric])
  also have "take k (drop n S) = matched m"
    using a by (simp only: k_def)
  also have "drop k (drop n S) = drop (n + k) S"
    by (simp add: add.commute)
  also have "drop (n + k) S = concat (map matched rs)
      @ drop (n + k + length (concat (map matched rs))) S"
    using Cons.IH[OF b] by (simp only: k_def)
  finally show ?case by (simp add: add.assoc k_def)
qed

lemma splice_consecutive:
  "consecutive S n rs \<Longrightarrow>
   splice S f n acc rs s =
     (case replaceEach f rs s of
        (Inl err, s') \<Rightarrow> (Inl err, s')
      | (Inr xs, s') \<Rightarrow>
          (Inr (acc @ concat xs @ drop (n + length (concat (map matched rs))) S), s'))"
proof (induction rs arbitrary: n acc s)
  case Nil
  show ?case by simp
next
  case (Cons m rs)
  then have i: "index m = n" and b: "consecutive S (n + length (matched m)) rs" by simp_all
  show ?case
  proof (cases "f m s")
    case (Pair r s')
    show ?thesis
    proof (cases r)
      case (Inl err)
      with Pair show ?thesis by simp
    next
      case (Inr x)
      with Pair i Cons.IH[OF b, of "acc @ x" s'] show ?thesis
        by (simp add: add.assoc split: prod.splits sum.splits)
    qed
  qed
qed

lemma replaceAll_matches:
  "replaceAll jsonWithNumberExpRE json f w =
     (case replaceEach f (matches json) (heap w) of
        (Inl err, s') \<Rightarrow> (Inl err, \<lparr>lastIndex = 0, heap = s'\<rparr>)
      | (Inr xs, s') \<Rightarrow>
          (Inr (concat xs @ drop (length (concat (map matched (matches json)))) json),
           \<lparr>lastIndex = 0, heap = s'\<rparr>))"
proof -
  obtain rs l where c: "collect jsonWithNumberExpRE json 0 = (rs, l)"
    by (cases "collect jsonWithNumberExpRE json 0")
  then have rs: "matches json = rs" by (simp add: matches_def)
  from collect_lastIndex[of jsonWithNumberExpRE json 0] c have l: "l = 0" by simp
  from matches_sound[of json] rs have "consecutive json 0 rs" by simp
  from splice_consecutive[OF this, of f "[]" "heap w"] show ?thesis
    by (simp add: replaceAll_def c rs l split: prod.splits sum.splits)
qed

lemma wellFormed_parts:
  assumes "wellFormed m"
  shows "matched m = prefixOf m @ numExpOf m" "outside (prefixOf m)" "expNumberText (numExpOf m)"
    "\<exists>x. expNumber (signPartOf m) (intPartOf m) (fracPartOf m) x (expPartOf m)"
proof -
  from assms obtain p sg ip fp x ex where
    w: "matched m = p @ numExpText sg ip fp x ex" "outside p" "expNumber sg ip fp x ex"
      "prefixOf m = p" "numExpOf m = numExpText sg ip fp x ex"
      "signPartOf m = sg" "intPartOf m = ip" "fracPartOf m = fp" "expPartOf m = ex"
    unfolding wellFormed_def by blast
  from w show "matched m = prefixOf m @ numExpOf m" by simp
  from w show "outside (prefixOf m)" by simp
  from w show "expNumberText (numExpOf m)" unfolding expNumberText_def by blast
  from w show "\<exists>x. expNumber (signPartOf m) (intPartOf m) (fracPartOf m) x (expPartOf m)"
    by blast
qed

lemma matched_parts:
  "list_all wellFormed rs \<Longrightarrow> map matched rs = map (\<lambda>m. prefixOf m @ numExpOf m) rs"
  by (induction rs) (auto dest: wellFormed_parts(1))

lemma json_decomp:
  "json = concat (map (\<lambda>m. prefixOf m @ numExpOf m) (matches json)) @ trailing json"
proof -
  from matches_sound[of json] have c: "consecutive json 0 (matches json)"
    and w: "list_all wellFormed (matches json)" by simp_all
  from consecutive_decomp[OF c] have "json = concat (map matched (matches json)) @ trailing json"
    by (simp add: trailing_def)
  then show ?thesis unfolding matched_parts[OF w] .
qed

lemma matches_outside:
  "list_all (\<lambda>m. outside (prefixOf m) \<and> expNumberText (numExpOf m)) (matches json)"
  using matches_sound[of json]
  by (auto simp: list_all_iff dest: wellFormed_parts(2,3))

lemma callEach_length: "callEach f xs s = (rs, s') \<Longrightarrow> length rs = length xs"
  by (induction xs arbitrary: s rs) (auto split: prod.splits)

lemma replaceEach_custom:
  "replaceEach (customReplacer f) rs s =
     (case callEach f (map (\<lambda>m. numExpOf m) rs) s of
        (xs, s') \<Rightarrow> (Inr (map2 (\<lambda>m r. prefixOf m @ r) rs xs), s'))"
  by (induction rs arbitrary: s) (auto simp: customReplacer_def split: prod.splits)

lemma defaultReplacer_result:
  "defaultReplacer m s = (r, s') \<Longrightarrow>
   s' = s \<and> ((\<exists>msg. r = Inl (RangeError msg)) \<or> (\<exists>u. r = Inr (prefixOf m @ u)))"
  by (auto simp: defaultReplacer_def exponentialToFixedReplacer_def Let_def split: if_splits)

lemma replaceEach_default:
  "replaceEach defaultReplacer rs s = (Inr xs, s') \<Longrightarrow>
   \<exists>reps. length reps = length rs \<and> xs = map2 (\<lambda>m r. prefixOf m @ r) rs reps"
proof (induction rs arbitrary: xs s)
  case Nil
  then show ?case by simp
next
  case (Cons m rs)
  obtain r s1 where d: "defaultReplacer m s = (r, s1)" by (cases "defaultReplacer m s")
  from defaultReplacer_result[OF d] Cons.prems d obtain u where r: "r = Inr (prefixOf m @ u)"
    by (auto split: sum.splits prod.splits)
  from Cons.prems d r obtain ys where ys: "replaceEach defaultReplacer rs s1 = (Inr ys, s')"
    and xs: "xs = (prefixOf m @ u) # ys"
    by (auto split: sum.splits prod.splits)
  from Cons.IH[OF ys] obtain reps where "length reps = length rs"
    "ys = map2 (\<lambda>m r. prefixOf m @ r) rs reps" by blast
  with xs show ?case by (intro exI[of _ "u # reps"]) simp
qed

lemma expNumberText_no_quote: "expNumberText t \<Longrightarrow> dq \<notin> set t"
proof -
  have d: "digits u \<Longrightarrow> dq \<notin> set u" for u
    by (auto simp: digits_def list_all_iff isdigit_def in_class_def in_range_def digit_def dq_def)
  assume "expNumberText t"
  then obtain sg ip fp x ex where t: "t = numExpText sg ip fp x ex" and e: "expNumber sg ip fp x ex"
    by (auto simp: expNumberText_def)
  from e d[of ip] have "dq \<notin> set sg" "dq \<notin> set ip" "x \<noteq> dq"
    by (auto simp: expNumber_def dq_def)
  moreover from e d have "dq \<notin> set ex" by (auto simp: expNumber_def dq_def)
  moreover from e d have "dq \<notin> set (case fp of None \<Rightarrow> [] | Some f \<Rightarrow> CHR ''.'' # f)"
    by (cases fp) (auto simp: expNumber_def dq_def)
  ultimately show ?thesis by (simp add: t numExpText_def)
qed

lemma custom_result:
  "jsonReplaceExponentials (JString json) (JFunction f) w =
     (case callEach f (map numExpOf (matches json)) (heap w) of
        (xs, s') \<Rightarrow>
          (Inr (concat (map2 (\<lambda>m r. prefixOf m @ r) (matches json) xs) @ trailing json),
           \<lparr>lastIndex = 0, heap = s'\<rparr>))"
  by (simp add: jsonReplaceExponentials_def replaceAll_matches replaceEach_custom trailing_def
      split: prod.splits)

lemma expNumberText_has_e: "expNumberText t \<Longrightarrow> CHR ''e'' \<in> set t \<or> CHR ''E'' \<in> set t"
  by (auto simp: expNumberText_def numExpText_def expNumber_def)

lemma outside_quote: "outside (dq # p) \<Longrightarrow> dq \<in> set p"
  unfolding outside_def
proof (induction "dq # p" arbitrary: p rule: rep.induct)
  case (rep_App u v)
  show ?case
  proof (cases u)
    case Nil
    with rep_App show ?thesis by simp
  next
    case (Cons x u')
    with rep_App(1,4) show ?thesis
      by (auto simp: skipped_def stringLiteral_def)
  qed
qed

subsection \<open>What a match must read\<close>

text \<open>
  Completeness of the matcher for the patterns of the module: every text of the grammar
  of a pattern is read by one of the alternatives of the matcher.
\<close>

lemma completeD: "complete r Q \<Longrightarrow> Q u \<Longrightarrow> (s, c) \<in> set (ms r (u @ s, c))"
  by (simp add: complete_def)

lemma complete_strengthen: "complete r Q \<Longrightarrow> (\<And>u. Q' u \<Longrightarrow> Q u) \<Longrightarrow> complete r Q'"
  unfolding complete_def by blast

lemma complete_Chars: "complete (Chars cs) (\<lambda>u. \<exists>x. u = [x] \<and> in_class cs x)"
  unfolding complete_def by auto

lemma complete_NotChars: "complete (NotChars cs) (\<lambda>u. \<exists>x. u = [x] \<and> \<not> in_class cs x)"
  unfolding complete_def
proof (intro allI impI)
  fix u s c
  assume "\<exists>x. u = [x] \<and> \<not> in_class cs x"
  then obtain x where "u = [x]" "\<not> in_class cs x" by blast
  then show "(s, c) \<in> set (ms (NotChars cs) (u @ s, c))" by simp
qed

lemma complete_Lit: "complete (Lit a) (\<lambda>u. u = [a])"
  unfolding complete_def by auto

lemma complete_Eps: "complete Eps (\<lambda>u. u = [])"
  unfolding complete_def by auto

lemma complete_Seq:
  assumes "complete r1 Q1" "complete r2 Q2"
  shows "complete (Seq r1 r2) (\<lambda>u. \<exists>u1 u2. u = u1 @ u2 \<and> Q1 u1 \<and> Q2 u2)"
  unfolding complete_def
proof (intro allI impI)
  fix u s c
  assume "\<exists>u1 u2. u = u1 @ u2 \<and> Q1 u1 \<and> Q2 u2"
  then obtain u1 u2 where u: "u = u1 @ u2" "Q1 u1" "Q2 u2" by blast
  from completeD[OF assms(1) u(2), of "u2 @ s" c] completeD[OF assms(2) u(3), of s c]
  show "(s, c) \<in> set (ms (Seq r1 r2) (u @ s, c))"
    unfolding in_ms_Seq u(1) by auto
qed

lemma complete_Alt1: "complete r1 Q \<Longrightarrow> complete (Alt r1 r2) Q"
  unfolding complete_def by simp

lemma complete_Alt2: "complete r2 Q \<Longrightarrow> complete (Alt r1 r2) Q"
  unfolding complete_def by simp

lemma complete_Alt:
  "complete r1 Q1 \<Longrightarrow> complete r2 Q2 \<Longrightarrow> complete (Alt r1 r2) (\<lambda>u. Q1 u \<or> Q2 u)"
  unfolding complete_def by auto

lemma complete_Opt: "complete r Q \<Longrightarrow> complete (Opt r) (\<lambda>u. Q u \<or> u = [])"
  unfolding Opt_def by (rule complete_Alt[OF _ complete_Eps])

lemma complete_Star_aux:
  assumes r: "complete r Q" and ne: "\<And>u. Q u \<Longrightarrow> u \<noteq> []"
    and step: "\<And>st. insert st (\<Union>m \<in> {m \<in> set (ms r st). length (fst m) < length (fst st)}. set (ms R m))
                 \<subseteq> set (ms R st)"
  shows "complete R (rep Q)"
  unfolding complete_def
proof (intro allI impI)
  fix u s c
  assume "rep Q u"
  then show "(s, c) \<in> set (ms R (u @ s, c))"
  proof (induction rule: rep.induct)
    case rep_Nil
    from step[of "(s, c)"] show ?case by auto
  next
    case (rep_App u v)
    from completeD[OF r rep_App(1), of "v @ s" c]
    have 1: "(v @ s, c) \<in> set (ms r ((u @ v) @ s, c))" by simp
    from ne[OF rep_App(1)] have 2: "length (fst (v @ s, c)) < length (fst ((u @ v) @ s, c))"
      by simp
    from step[of "((u @ v) @ s, c)"] 1 2 rep_App.IH show ?case by blast
  qed
qed

lemma complete_Star:
  "complete r Q \<Longrightarrow> (\<And>u. Q u \<Longrightarrow> u \<noteq> []) \<Longrightarrow> complete (Star r) (rep Q)"
proof (erule complete_Star_aux)
  fix st
  have "set (ms (Star r) st) = insert st
      (\<Union>m \<in> {m \<in> set (ms r st). length (fst m) < length (fst st)}. set (ms (Star r) m))"
    by (subst ms.simps(6)) auto
  then show "insert st
      (\<Union>m \<in> {m \<in> set (ms r st). length (fst m) < length (fst st)}. set (ms (Star r) m))
      \<subseteq> set (ms (Star r) st)"
    by simp
qed

lemma complete_LazyStar:
  "complete r Q \<Longrightarrow> (\<And>u. Q u \<Longrightarrow> u \<noteq> []) \<Longrightarrow> complete (LazyStar r) (rep Q)"
proof (erule complete_Star_aux)
  fix st
  have "set (ms (LazyStar r) st) = insert st
      (\<Union>m \<in> {m \<in> set (ms r st). length (fst m) < length (fst st)}. set (ms (LazyStar r) m))"
    by (subst ms.simps(7)) auto
  then show "insert st
      (\<Union>m \<in> {m \<in> set (ms r st). length (fst m) < length (fst st)}. set (ms (LazyStar r) m))
      \<subseteq> set (ms (LazyStar r) st)"
    by simp
qed

lemma all_rep_chars:
  "list_all (in_class cs) u \<Longrightarrow> rep (\<lambda>u. \<exists>x. u = [x] \<and> in_class cs x) u"
proof (induction u)
  case Nil
  show ?case by (rule rep_Nil)
next
  case (Cons x u)
  then have "rep (\<lambda>u. \<exists>x. u = [x] \<and> in_class cs x) ([x] @ u)"
    by (intro rep_App) auto
  then show ?case by simp
qed

lemma complete_Plus_digit: "complete (Plus (Chars digit)) (\<lambda>u. u \<noteq> [] \<and> digits u)"
  unfolding Plus_def
proof (rule complete_strengthen[OF complete_Seq[OF complete_Chars complete_Star[OF complete_Chars]]])
  fix u :: string
  assume "\<exists>x. u = [x] \<and> in_class digit x"
  then show "u \<noteq> []" by auto
next
  fix u
  assume u: "u \<noteq> [] \<and> digits u"
  then obtain x v where "u = [x] @ v" by (cases u) auto
  with u all_rep_chars[of digit v]
  show "\<exists>u1 u2. u = u1 @ u2 \<and> (\<exists>x. u1 = [x] \<and> in_class digit x)
          \<and> rep (\<lambda>u. \<exists>x. u = [x] \<and> in_class digit x) u2"
    by (intro exI[of _ "[x]"] exI[of _ v]) (auto simp: digits_def isdigit_eq)
qed

lemma complete_stringChar: "complete stringChar stringItem"
  unfolding complete_def
proof (intro allI impI)
  fix u s c
  have A: "in_class [(CHR 0x00, CHR 0x1F), (bs, bs), (dq, dq)] bs"
    by (simp add: in_class_Cons in_range_single)
  assume "stringItem u"
  then show "(s, c) \<in> set (ms stringChar (u @ s, c))"
    unfolding stringItem_def
  proof (elim disjE exE conjE)
    fix x
    assume 1: "u = [x]" "\<not> control x" "x \<noteq> bs" "x \<noteq> dq"
    then have "\<not> in_class [(CHR 0x00, CHR 0x1F), (bs, bs), (dq, dq)] x"
      by (auto simp: in_class_Cons in_class_Nil in_range_single control_def in_range_def)
    with 1 show ?thesis by (simp add: stringChar_def)
  next
    fix x
    assume 2: "u = [bs, x]" "x \<in> set (dq # bs # ''/bfnrt'')"
    then have "in_class [(dq, dq), (bs, bs), (CHR ''/'', CHR ''/''), (CHR ''b'', CHR ''b''),
        (CHR ''f'', CHR ''f''), (CHR ''n'', CHR ''n''), (CHR ''r'', CHR ''r''),
        (CHR ''t'', CHR ''t'')] x"
      by (auto simp: in_class_Cons in_class_Nil in_range_single)
    with A 2 show ?thesis by (simp add: stringChar_def)
  next
    fix a b c' d
    assume 3: "u = [bs, CHR ''u'', a, b, c', d]" "hex a" "hex b" "hex c'" "hex d"
    with A show ?thesis by (simp add: stringChar_def Rep4_def hex_def)
  qed
qed

lemma stringItem_nonempty: "stringItem u \<Longrightarrow> u \<noteq> []"
  by (auto simp: stringItem_def)

lemma complete_stringPattern: "complete stringPattern stringLiteral"
  unfolding stringPattern_def
proof (rule complete_strengthen[OF complete_Seq[OF complete_Lit complete_Seq[OF
        complete_Star[OF complete_stringChar stringItem_nonempty] complete_Lit]]])
  fix u
  assume "stringLiteral u"
  then obtain body where u: "u = [dq] @ body @ [dq]" and b: "rep stringItem body"
    by (auto simp: stringLiteral_def)
  from b have "\<exists>u1 u2a. body @ [dq] = u1 @ u2a \<and> rep stringItem u1 \<and> u2a = [dq]" by blast
  with u show "\<exists>u1 u2. u = u1 @ u2 \<and> u1 = [dq] \<and>
          (\<exists>u1 u2a. u2 = u1 @ u2a \<and> rep stringItem u1 \<and> u2a = [dq])" by blast
qed

lemma skipped_nonempty: "skipped u \<Longrightarrow> u \<noteq> []"
  by (auto simp: skipped_def stringLiteral_def)

lemma complete_skipItem: "complete skipItem skipped"
  unfolding skipItem_def
proof (rule complete_strengthen[OF complete_Alt[OF complete_stringPattern complete_NotChars]])
  fix u
  assume "skipped u"
  then show "stringLiteral u \<or> (\<exists>x. u = [x] \<and> \<not> in_class [(dq, dq)] x)"
    by (simp add: skipped_def)
qed

lemma complete_prefix: "complete (LazyStar skipItem) outside"
  unfolding outside_def by (rule complete_LazyStar[OF complete_skipItem skipped_nonempty])

lemma in_ms_GroupI:
  "(s', c1) \<in> set (ms r (s, c)) \<Longrightarrow> \<exists>c'. (s', c') \<in> set (ms (Group n r) (s, c))"
  by force

lemma numberExp_complete:
  assumes "expNumber sg ip fp x ex"
  shows "\<exists>c'. (rest, c') \<in> set (ms numberExpPattern (numExpText sg ip fp x ex @ rest, c))"
proof -
  define pm where "pm = [(CHR ''+'', CHR ''+''), (CHR ''-'', CHR ''-'')]"
  define T6 where "T6 = Group 6 (Seq (Opt (Chars pm)) (Plus (Chars digit)))"
  define T5 where "T5 = Seq (Chars [(CHR ''e'', CHR ''e''), (CHR ''E'', CHR ''E'')]) T6"
  define O5 where "O5 = Opt (Seq (Lit CHR ''.'') (Group 5 (Plus (Chars digit))))"
  define T4 where "T4 = Seq O5 T5"
  define T3 where "T3 = Seq (Group 4 (Plus (Chars digit))) T4"
  have N: "numberExpPattern = Seq (Group 3 (Opt (Lit CHR ''-''))) T3"
    by (simp add: numberExpPattern_def T3_def T4_def T5_def T6_def O5_def pm_def)
  from assms obtain es ed where sg: "sg = [] \<or> sg = ''-''" and ip: "ip \<noteq> []" "digits ip"
    and fp: "case fp of None \<Rightarrow> True | Some f \<Rightarrow> f \<noteq> [] \<and> digits f"
    and x: "x = CHR ''e'' \<or> x = CHR ''E''"
    and ex: "ex = es @ ed" "es = [] \<or> es = ''+'' \<or> es = ''-''" "ed \<noteq> []" "digits ed"
    unfolding expNumber_def by blast
  have t6: "\<exists>c'. (rest, c') \<in> set (ms T6 (ex @ rest, c6))" for c6
  proof -
    have "(\<exists>x. es = [x] \<and> in_class pm x) \<or> es = []"
      using ex(2) by (auto simp: pm_def in_class_Cons in_range_single)
    from completeD[OF complete_Opt[OF complete_Chars] this, of "ed @ rest" c6]
      completeD[OF complete_Plus_digit, of ed rest c6] ex(3,4)
    have "(rest, c6) \<in> set (ms (Seq (Opt (Chars pm)) (Plus (Chars digit))) (ex @ rest, c6))"
      unfolding in_ms_Seq ex(1) by auto
    then show ?thesis unfolding T6_def by (rule in_ms_GroupI)
  qed
  have t5: "\<exists>c'. (rest, c') \<in> set (ms T5 (x # ex @ rest, c5))" for c5
  proof -
    have "(ex @ rest, c5) \<in> set (ms (Chars [(CHR ''e'', CHR ''e''), (CHR ''E'', CHR ''E'')])
        (x # ex @ rest, c5))"
      using x by (auto simp: in_class_Cons in_range_single)
    with t6[of c5] show ?thesis unfolding T5_def in_ms_Seq by blast
  qed
  have t4: "\<exists>c'. (rest, c') \<in> set (ms T4 ((case fp of None \<Rightarrow> [] | Some f \<Rightarrow> CHR ''.'' # f)
       @ x # ex @ rest, c4))" for c4
  proof (cases fp)
    case None
    have "(x # ex @ rest, c4) \<in> set (ms O5 (x # ex @ rest, c4))"
      by (simp add: O5_def Opt_def)
    with t5[of c4] None show ?thesis unfolding T4_def in_ms_Seq by auto
  next
    case (Some f)
    with fp have f: "f \<noteq> [] \<and> digits f" by simp
    from in_ms_GroupI[OF completeD[OF complete_Plus_digit f, of "x # ex @ rest" c4], of 5]
    obtain c5 where "(x # ex @ rest, c5) \<in> set (ms (Group 5 (Plus (Chars digit)))
        (f @ x # ex @ rest, c4))" by blast
    then have "(x # ex @ rest, c5) \<in> set (ms O5 (CHR ''.'' # f @ x # ex @ rest, c4))"
      by (simp add: O5_def Opt_def)
    with t5[of c5] Some show ?thesis unfolding T4_def in_ms_Seq by auto
  qed
  define s4 where "s4 = (case fp of None \<Rightarrow> [] | Some f \<Rightarrow> CHR ''.'' # f) @ x # ex @ rest"
  have t3: "\<exists>c'. (rest, c') \<in> set (ms T3 (ip @ s4, c3))" for c3
  proof -
    from in_ms_GroupI[OF completeD[OF complete_Plus_digit, of ip s4 c3], of 4] ip
    obtain c4 where "(s4, c4) \<in> set (ms (Group 4 (Plus (Chars digit))) (ip @ s4, c3))" by blast
    with t4[of c4] show ?thesis unfolding T3_def in_ms_Seq s4_def by blast
  qed
  have "sg = ''-'' \<or> sg = []" using sg by blast
  from in_ms_GroupI[OF completeD[OF complete_Opt[OF complete_Lit] this, of "ip @ s4" c], of 3]
  obtain c3 where "(ip @ s4, c3) \<in> set (ms (Group 3 (Opt (Lit CHR ''-''))) (sg @ ip @ s4, c))"
    by blast
  with t3[of c3] have "\<exists>c'. (rest, c') \<in> set (ms numberExpPattern (sg @ ip @ s4, c))"
    unfolding N in_ms_Seq by blast
  moreover have "numExpText sg ip fp x ex @ rest = sg @ ip @ s4"
    by (simp add: numExpText_def s4_def)
  ultimately show ?thesis by simp
qed

lemma numberAhead_matches:
  assumes "numberAhead s"
  shows "ms numberExpPattern (s, c) \<noteq> []"
proof -
  from assms obtain sg ip fp x ex r where "s = numExpText sg ip fp x ex @ r"
    "expNumber sg ip fp x ex"
    unfolding numberAhead_def expNumberText_def by blast
  with numberExp_complete[of sg ip fp x ex r c] show ?thesis by auto
qed

subsection \<open>Which alternative comes first\<close>

text \<open>
  The pattern of a string literal and the pattern of a skipped item have at most one
  match at a place, so the lazy star of the prefix offers the places outside the string
  literals one after the other, from left to right; and the first alternative of the
  number pattern takes all the digits of the exponent.
\<close>

lemma le1_Chars: "length (ms (Chars cs) st) \<le> 1"
  by (cases "fst st") auto

lemma le1_NotChars: "length (ms (NotChars cs) st) \<le> 1"
  by (cases "fst st") auto

lemma le1_Lit: "length (ms (Lit a) st) \<le> 1"
  unfolding Lit_def by (rule le1_Chars)

lemma le1_Seq:
  assumes "\<And>st. length (ms r1 st) \<le> 1" "\<And>st. length (ms r2 st) \<le> 1"
  shows "length (ms (Seq r1 r2) st) \<le> 1"
proof (cases "ms r1 st")
  case Nil
  then show ?thesis by simp
next
  case (Cons a as)
  with assms(1)[of st] have "as = []" by simp
  with Cons assms(2)[of a] show ?thesis by simp
qed

lemma le1_Alt:
  assumes "length (ms r1 st) \<le> 1" "length (ms r2 st) \<le> 1" "ms r1 st = [] \<or> ms r2 st = []"
  shows "length (ms (Alt r1 r2) st) \<le> 1"
  using assms by auto

lemma ms_Lit_other: "x \<noteq> a \<Longrightarrow> ms (Seq (Lit a) r) (x # xs, c) = []"
  by simp

lemma le1_stringChar: "length (ms stringChar st) \<le> 1"
proof -
  obtain s c where st: "st = (s, c)" by (cases st)
  define A where "A = [(CHR 0x00, CHR 0x1F), (bs, bs), (dq, dq)]"
  define B where "B = [(dq, dq), (bs, bs), (CHR ''/'', CHR ''/''), (CHR ''b'', CHR ''b''),
        (CHR ''f'', CHR ''f''), (CHR ''n'', CHR ''n''), (CHR ''r'', CHR ''r''),
        (CHR ''t'', CHR ''t'')]"
  define U where "U = Seq (Lit CHR ''u'') (Rep4 (Chars hexdigit))"
  define E where "E = Seq (Lit bs) (Alt (Chars B) U)"
  have sc: "stringChar = Alt (NotChars A) E"
    by (simp add: stringChar_def A_def B_def U_def E_def)
  have u: "length (ms U st') \<le> 1" for st'
    unfolding U_def Rep4_def
    by (intro le1_Seq le1_Lit le1_Chars)
  have nu: "\<not> in_class B (CHR ''u'')"
    by (simp add: B_def in_class_Cons in_class_Nil in_range_single dq_def bs_def)
  have alt: "length (ms (Alt (Chars B) U) st') \<le> 1" for st'
  proof (rule le1_Alt[OF le1_Chars u])
    obtain s' c' where st': "st' = (s', c')" by (cases st')
    show "ms (Chars B) st' = [] \<or> ms U st' = []"
    proof (cases s')
      case Nil
      with st' show ?thesis by simp
    next
      case (Cons x xs)
      show ?thesis
      proof (cases "x = CHR ''u''")
        case True
        with nu st' Cons show ?thesis by simp
      next
        case False
        then have "ms U (x # xs, c') = []" unfolding U_def by (rule ms_Lit_other)
        with st' Cons show ?thesis by simp
      qed
    qed
  qed
  have e: "length (ms E st') \<le> 1" for st'
    unfolding E_def by (intro le1_Seq le1_Lit alt)
  have ab: "in_class A bs" by (simp add: A_def in_class_Cons in_range_single)
  have "ms (NotChars A) st = [] \<or> ms E st = []"
  proof (cases s)
    case Nil
    with st show ?thesis by simp
  next
    case (Cons x xs)
    show ?thesis
    proof (cases "x = bs")
      case True
      with ab st Cons show ?thesis by simp
    next
      case False
      then have "ms E (x # xs, c) = []" unfolding E_def by (rule ms_Lit_other)
      with st Cons show ?thesis by simp
    qed
  qed
  from le1_Alt[OF le1_NotChars e this] show ?thesis by (simp only: sc)
qed

lemma stringItem_no_quote: "stringItem u \<Longrightarrow> \<exists>x v. u = x # v \<and> x \<noteq> dq"
  by (auto simp: stringItem_def dq_def bs_def)

lemma stringChar_not_quote:
  assumes "ms stringChar (s, c) \<noteq> []"
  shows "ms (Lit dq) (s, c) = []"
proof -
  from assms obtain s' c' where "(s', c') \<in> set (ms stringChar (s, c))"
    by (cases "ms stringChar (s, c)") auto
  from soundD[OF sound_stringChar this] obtain u where "s = u @ s'" "stringItem u" by blast
  with stringItem_no_quote[of u] show ?thesis by auto
qed

lemma le1_stringBody: "length (ms (Seq (Star stringChar) (Lit dq)) (s, c)) \<le> 1"
proof (induction "length s" arbitrary: s c rule: less_induct)
  case less
  define F where "F = filter (\<lambda>st'. length (fst st') < length (fst (s, c))) (ms stringChar (s, c))"
  have star: "ms (Star stringChar) (s, c) = concat (map (ms (Star stringChar)) F) @ [(s, c)]"
    unfolding F_def by (rule ms.simps(6))
  have seq: "ms (Seq (Star stringChar) (Lit dq)) (s, c)
      = concat (map (ms (Lit dq)) (concat (map (ms (Star stringChar)) F))) @ ms (Lit dq) (s, c)"
    by (simp only: ms.simps(4) star map_append concat_append list.map concat.simps append_Nil2)
  have lf: "length F \<le> 1"
    unfolding F_def using le1_stringChar[of "(s, c)"] length_filter_le
    by (meson le_trans)
  show ?case
  proof (cases F)
    case Nil
    with seq have "ms (Seq (Star stringChar) (Lit dq)) (s, c) = ms (Lit dq) (s, c)" by simp
    with le1_Lit[of dq "(s, c)"] show ?thesis by simp
  next
    case (Cons st1 F')
    with lf have F: "F = [st1]" by simp
    obtain s1 c1 where st1: "st1 = (s1, c1)" by (cases st1)
    from F have "st1 \<in> set F" by simp
    then have m: "st1 \<in> set (ms stringChar (s, c))" and l: "length s1 < length s"
      by (auto simp: F_def st1)
    from m have "ms stringChar (s, c) \<noteq> []" by auto
    from stringChar_not_quote[OF this] seq F
    have "ms (Seq (Star stringChar) (Lit dq)) (s, c)
        = concat (map (ms (Lit dq)) (ms (Star stringChar) st1))" by simp
    also have "\<dots> = ms (Seq (Star stringChar) (Lit dq)) (s1, c1)"
      by (simp only: ms.simps(4) st1)
    finally show ?thesis using less[OF l, of c1] by simp
  qed
qed

lemma le1_stringPattern: "length (ms stringPattern st) \<le> 1"
proof -
  have "length (ms (Seq (Star stringChar) (Lit dq)) st') \<le> 1" for st'
    using le1_stringBody[of "fst st'" "snd st'"] by simp
  with le1_Lit show ?thesis
    unfolding stringPattern_def by (rule le1_Seq)
qed

lemma le1_skipItem: "length (ms skipItem st) \<le> 1"
  unfolding skipItem_def
proof (rule le1_Alt[OF le1_stringPattern le1_NotChars])
  obtain s c where st: "st = (s, c)" by (cases st)
  show "ms stringPattern st = [] \<or> ms (NotChars [(dq, dq)]) st = []"
  proof (cases s)
    case Nil
    with st show ?thesis by simp
  next
    case (Cons x xs)
    show ?thesis
    proof (cases "x = dq")
      case True
      with st Cons show ?thesis by simp
    next
      case False
      then have "ms stringPattern (x # xs, c) = []"
        unfolding stringPattern_def by (rule ms_Lit_other)
      with st Cons show ?thesis by simp
    qed
  qed
qed

text \<open>The states the lazy star offers, in the order it offers them: ever shorter rests.\<close>

lemma prefix_chain:
  "sorted_wrt (\<lambda>a b. length (fst b) < length (fst a)) (ms (LazyStar skipItem) (s, c))"
proof (induction "length s" arbitrary: s c rule: less_induct)
  case less
  define F where "F = filter (\<lambda>st'. length (fst st') < length (fst (s, c))) (ms skipItem (s, c))"
  have lazy: "ms (LazyStar skipItem) (s, c) = (s, c) # concat (map (ms (LazyStar skipItem)) F)"
    unfolding F_def by (rule ms.simps(7))
  have lf: "length F \<le> 1"
    unfolding F_def using le1_skipItem[of "(s, c)"] length_filter_le
    by (meson le_trans)
  show ?case
  proof (cases F)
    case Nil
    with lazy show ?thesis by simp
  next
    case (Cons st1 F')
    with lf have F: "F = [st1]" by simp
    obtain s1 c1 where st1: "st1 = (s1, c1)" by (cases st1)
    from F have "st1 \<in> set F" by simp
    then have l: "length s1 < length s" by (auto simp: F_def st1)
    from lazy F st1 have L: "ms (LazyStar skipItem) (s, c) = (s, c) # ms (LazyStar skipItem) (s1, c1)"
      by simp
    have "length (fst z) < length s" if "z \<in> set (ms (LazyStar skipItem) (s1, c1))" for z
      using ms_length[OF that] l by simp
    with less[OF l, of c1] show ?thesis unfolding L by simp
  qed
qed

lemma sorted_before:
  assumes "sorted_wrt (\<lambda>a b. length (fst b) < length (fst a)) (pre @ l # post)"
    and "z \<in> set (pre @ l # post)" and "length (fst l) < length (fst z)"
  shows "z \<in> set pre"
  using assms by (auto simp: sorted_wrt_append)

lemma concat_first:
  "concat (map f xs) = y # ys \<Longrightarrow>
   \<exists>pre x post. xs = pre @ x # post \<and> (\<forall>z \<in> set pre. f z = []) \<and> f x \<noteq> [] \<and> hd (f x) = y"
proof (induction xs)
  case Nil
  then show ?case by simp
next
  case (Cons a xs)
  show ?case
  proof (cases "f a")
    case Nil
    with Cons.prems have "concat (map f xs) = y # ys" by simp
    from Cons.IH[OF this] obtain pre x post where
      "xs = pre @ x # post" "\<forall>z \<in> set pre. f z = []" "f x \<noteq> []" "hd (f x) = y" by blast
    with Nil show ?thesis by (intro exI[of _ "a # pre"] exI[of _ x] exI[of _ post]) simp
  next
    case (Cons b bs)
    with Cons.prems show ?thesis by (intro exI[of _ "[]"] exI[of _ a] exI[of _ xs]) simp
  qed
qed

lemma star_digit_hd:
  "ms (Star (Chars digit)) (s, c) \<noteq> [] \<and> \<not> digitAhead (fst (hd (ms (Star (Chars digit)) (s, c))))"
proof (induction s)
  case Nil
  show ?case by (simp add: digitAhead_def)
next
  case (Cons x xs)
  then show ?case by (simp add: digitAhead_def isdigit_def)
qed

lemma plus_digit_hd:
  assumes "ms (Plus (Chars digit)) st \<noteq> []"
  shows "\<not> digitAhead (fst (hd (ms (Plus (Chars digit)) st)))"
proof -
  obtain s c where st: "st = (s, c)" by (cases st)
  show ?thesis
  proof (cases s)
    case Nil
    with assms st show ?thesis by (simp add: Plus_def)
  next
    case (Cons x xs)
    with assms st have "in_class digit x" by (auto simp: Plus_def split: if_splits)
    with st Cons have "ms (Plus (Chars digit)) st = ms (Star (Chars digit)) (xs, c)"
      by (simp add: Plus_def)
    with star_digit_hd[of xs c] show ?thesis by simp
  qed
qed

lemma hd_Seq:
  assumes "ms (Seq r1 r2) st \<noteq> []" and "\<And>st'. ms r2 st' \<noteq> [] \<Longrightarrow> P (fst (hd (ms r2 st')))"
  shows "P (fst (hd (ms (Seq r1 r2) st)))"
proof -
  from assms(1) obtain y ys where "concat (map (ms r2) (ms r1 st)) = y # ys"
    by (cases "ms (Seq r1 r2) st") auto
  from concat_first[OF this] obtain x where "ms r2 x \<noteq> []" "hd (ms r2 x) = y" by blast
  with assms(2)[of x] \<open>concat (map (ms r2) (ms r1 st)) = y # ys\<close> show ?thesis by simp
qed

lemma hd_Group:
  assumes "ms (Group n r) st \<noteq> []" and "\<And>st'. ms r st' \<noteq> [] \<Longrightarrow> P (fst (hd (ms r st')))"
  shows "P (fst (hd (ms (Group n r) st)))"
proof -
  from assms(1) have ne: "ms r st \<noteq> []" by auto
  then have "fst (hd (ms (Group n r) st)) = fst (hd (ms r st))" by (simp add: hd_map)
  with assms(2)[OF ne] show ?thesis by simp
qed

lemma number_hd:
  assumes "ms numberExpPattern st \<noteq> []"
  shows "\<not> digitAhead (fst (hd (ms numberExpPattern st)))"
proof -
  define P where "P s = (\<not> digitAhead s)" for s
  define pm where "pm = [(CHR ''+'', CHR ''+''), (CHR ''-'', CHR ''-'')]"
  define T6 where "T6 = Group 6 (Seq (Opt (Chars pm)) (Plus (Chars digit)))"
  define T5 where "T5 = Seq (Chars [(CHR ''e'', CHR ''e''), (CHR ''E'', CHR ''E'')]) T6"
  define T4 where "T4 = Seq (Opt (Seq (Lit CHR ''.'') (Group 5 (Plus (Chars digit))))) T5"
  define T3 where "T3 = Seq (Group 4 (Plus (Chars digit))) T4"
  have N: "numberExpPattern = Seq (Group 3 (Opt (Lit CHR ''-''))) T3"
    by (simp add: numberExpPattern_def T3_def T4_def T5_def T6_def pm_def)
  have p: "ms (Plus (Chars digit)) st' \<noteq> [] \<Longrightarrow> P (fst (hd (ms (Plus (Chars digit)) st')))" for st'
    unfolding P_def by (rule plus_digit_hd)
  have s6: "ms (Seq (Opt (Chars pm)) (Plus (Chars digit))) st' \<noteq> [] \<Longrightarrow>
      P (fst (hd (ms (Seq (Opt (Chars pm)) (Plus (Chars digit))) st')))" for st'
    by (rule hd_Seq[where P = P]) (assumption, rule p)
  have t6: "ms T6 st' \<noteq> [] \<Longrightarrow> P (fst (hd (ms T6 st')))" for st'
    unfolding T6_def by (rule hd_Group[where P = P]) (assumption, rule s6)
  have t5: "ms T5 st' \<noteq> [] \<Longrightarrow> P (fst (hd (ms T5 st')))" for st'
    unfolding T5_def by (rule hd_Seq[where P = P]) (assumption, rule t6)
  have t4: "ms T4 st' \<noteq> [] \<Longrightarrow> P (fst (hd (ms T4 st')))" for st'
    unfolding T4_def by (rule hd_Seq[where P = P]) (assumption, rule t5)
  have t3: "ms T3 st' \<noteq> [] \<Longrightarrow> P (fst (hd (ms T3 st')))" for st'
    unfolding T3_def by (rule hd_Seq[where P = P]) (assumption, rule t4)
  have "P (fst (hd (ms numberExpPattern st)))"
    using assms unfolding N by (rule hd_Seq[where P = P]) (rule t3)
  then show ?thesis by (simp add: P_def)
qed

lemma json_hd:
  assumes "ms jsonWithNumberExpRE st \<noteq> []"
  shows "\<not> digitAhead (fst (hd (ms jsonWithNumberExpRE st)))"
proof -
  define P where "P s = (\<not> digitAhead s)" for s
  have n: "ms numberExpPattern st' \<noteq> [] \<Longrightarrow> P (fst (hd (ms numberExpPattern st')))" for st'
    unfolding P_def by (rule number_hd)
  have g: "ms (Group 2 numberExpPattern) st' \<noteq> [] \<Longrightarrow>
      P (fst (hd (ms (Group 2 numberExpPattern) st')))" for st'
    by (rule hd_Group[where P = P]) (assumption, rule n)
  have "P (fst (hd (ms jsonWithNumberExpRE st)))"
    using assms unfolding jsonWithNumberExpRE_def by (rule hd_Seq[where P = P]) (rule g)
  then show ?thesis by (simp add: P_def)
qed

subsection \<open>The matches are the first numbers, and whole\<close>

lemma ms_Group_empty: "ms (Group n r) st = [] \<longleftrightarrow> ms r st = []"
  by simp

lemma json_first:
  assumes "ms jsonWithNumberExpRE (s, Map.empty) = st # sts"
  shows "\<exists>p. snd st 1 = Some p \<and> s = p @ drop (length p) s
     \<and> (\<forall>a b. p = a @ b \<and> b \<noteq> [] \<and> outside a \<longrightarrow> \<not> numberAhead (b @ drop (length p) s))"
proof -
  define L where "L = ms (LazyStar skipItem) (s, Map.empty)"
  define g :: "mstate \<Rightarrow> mstate"
    where "g st' = (fst st', (snd st')(1 \<mapsto> take (length s - length (fst st')) s))" for st'
  define G2 where "G2 = Group 2 numberExpPattern"
  have g1: "ms (Group 1 (LazyStar skipItem)) (s, Map.empty) = map g L"
    by (simp add: L_def g_def)
  have "ms jsonWithNumberExpRE (s, Map.empty) = concat (map (ms G2) (map g L))"
    by (simp only: jsonWithNumberExpRE_def ms.simps(4) g1 G2_def)
  also have "\<dots> = concat (map (\<lambda>z. ms G2 (g z)) L)"
    by (simp only: map_map comp_def)
  finally have "concat (map (\<lambda>z. ms G2 (g z)) L) = st # sts"
    using assms by simp
  from concat_first[OF this] obtain pre l post where L: "L = pre @ l # post"
    and pre: "\<forall>z \<in> set pre. ms G2 (g z) = []" and ne: "ms G2 (g l) \<noteq> []"
    and hd: "hd (ms G2 (g l)) = st" by blast
  obtain sl cl where l: "l = (sl, cl)" by (cases l)
  from L l have "(sl, cl) \<in> set (ms (LazyStar skipItem) (s, Map.empty))" by (simp add: L_def)
  from soundD[OF sound_prefix this] obtain p where p: "cl = Map.empty" "s = p @ sl" "outside p"
    by blast
  from p(2) have tk: "take (length s - length sl) s = p" by simp
  have gl: "g l = (sl, [1 \<mapsto> p])" by (simp add: g_def l p(1) tk)
  from ne hd have "st \<in> set (ms G2 (g l))" by (cases "ms G2 (g l)") auto
  then obtain cn where n: "(fst st, cn) \<in> set (ms numberExpPattern (sl, [1 \<mapsto> p]))"
    and c: "snd st = cn(2 \<mapsto> take (length sl - length (fst st)) sl)"
    unfolding G2_def gl by auto
  have "[(1::nat) \<mapsto> p] 5 = None" by simp
  from numberExp_sound[OF n this] have "cn 1 = Some p" by auto
  with c have c1: "snd st 1 = Some p" by simp
  from p(2) have dr: "drop (length p) s = sl" by simp
  have "\<not> numberAhead (b @ sl)" if ab: "p = a @ b" "b \<noteq> []" "outside a" for a b
  proof
    assume na: "numberAhead (b @ sl)"
    from completeD[OF complete_prefix ab(3), of "b @ sl" Map.empty] p(2) ab(1)
    have "(b @ sl, Map.empty) \<in> set L" by (simp add: L_def)
    moreover have "sorted_wrt (\<lambda>a b. length (fst b) < length (fst a)) (pre @ l # post)"
      using prefix_chain[of s Map.empty] by (simp add: L_def[symmetric] L)
    moreover have "length (fst l) < length (fst (b @ sl, Map.empty :: captures))"
      using ab(2) by (simp add: l)
    ultimately have "(b @ sl, Map.empty) \<in> set pre"
      unfolding L by (intro sorted_before[of pre l post]) auto
    with pre have "ms G2 (g (b @ sl, Map.empty)) = []" by blast
    then have "ms numberExpPattern (g (b @ sl, Map.empty)) = []"
      unfolding G2_def ms_Group_empty .
    moreover have "ms numberExpPattern (b @ sl, snd (g (b @ sl, Map.empty))) \<noteq> []"
      by (rule numberAhead_matches[OF na])
    moreover have "g (b @ sl, Map.empty) = (b @ sl, snd (g (b @ sl, Map.empty)))"
      by (simp add: g_def)
    ultimately show False by simp
  qed
  with c1 dr p(2) show ?thesis by auto
qed

lemma json_none:
  assumes "ms jsonWithNumberExpRE (s, Map.empty) = []"
  shows "\<not> numberOutside s"
proof
  assume "numberOutside s"
  then obtain pre t post where s: "s = pre @ t @ post" and o: "outside pre" and t: "expNumberText t"
    unfolding numberOutside_def by blast
  from completeD[OF complete_prefix o, of "t @ post" Map.empty] s
  have "(t @ post, Map.empty) \<in> set (ms (LazyStar skipItem) (s, Map.empty))" by simp
  from in_ms_GroupI[OF this, of 1] obtain c1
    where 1: "(t @ post, c1) \<in> set (ms (Group 1 (LazyStar skipItem)) (s, Map.empty))" by blast
  from t have "numberAhead (t @ post)" unfolding numberAhead_def by blast
  from numberAhead_matches[OF this, of c1] have "ms (Group 2 numberExpPattern) (t @ post, c1) \<noteq> []"
    unfolding ms_Group_empty .
  then have "hd (ms (Group 2 numberExpPattern) (t @ post, c1))
      \<in> set (ms (Group 2 numberExpPattern) (t @ post, c1))"
    by (rule hd_in_set)
  with 1 have "hd (ms (Group 2 numberExpPattern) (t @ post, c1))
      \<in> set (ms jsonWithNumberExpRE (s, Map.empty))"
    unfolding jsonWithNumberExpRE_def in_ms_Seq by blast
  with assms show False by simp
qed

lemma expNumberText_nonempty: "expNumberText t \<Longrightarrow> t \<noteq> []"
  by (auto simp: expNumberText_def dest: expNumber_nonempty)

lemma exec_first:
  assumes "RegExpBuiltinExec jsonWithNumberExpRE S li = (Some m, e)"
  shows "firstWhole S m"
proof -
  from assms have le: "li \<le> length S"
    by (auto simp: RegExpBuiltinExec_def split: if_splits)
  from assms le obtain st sts where st: "ms jsonWithNumberExpRE (drop li S, Map.empty) = st # sts"
    and e: "e = length S - length (fst st)"
    and m: "m = \<lparr>index = li, matched = take (e - li) (drop li S), caps = snd st\<rparr>"
    by (auto simp: RegExpBuiltinExec_def Let_def split: if_splits list.splits)
  from exec_sound[OF assms]
  have w: "wellFormed m" and i: "index m = li" and e': "e = li + length (matched m)"
    and mt: "matched m = take (length (matched m)) (drop li S)" by simp_all
  from st have "(fst st, snd st) \<in> set (ms jsonWithNumberExpRE (drop li S, Map.empty))" by simp
  from jsonWithNumberExpRE_sound[OF this] obtain u where u: "drop li S = u @ fst st"
    by (metis append.assoc)
  from u have "length S - li = length u + length (fst st)"
    by (metis length_append length_drop)
  with le e e' have "length (matched m) = length u" by simp
  with mt u have mu: "matched m = u" by simp
  have "drop (index m + length (matched m)) S = drop (length u) (drop li S)"
    by (simp add: i mu add.commute)
  also have "\<dots> = fst st" by (simp add: u)
  finally have rest: "drop (index m + length (matched m)) S = fst st" .
  from st have "ms jsonWithNumberExpRE (drop li S, Map.empty) \<noteq> []" by simp
  from json_hd[OF this] st have long: "\<not> digitAhead (fst st)" by simp
  from json_first[OF st] obtain p where p: "snd st 1 = Some p" "drop li S = p @ drop (length p) (drop li S)"
    and first: "\<forall>a b. p = a @ b \<and> b \<noteq> [] \<and> outside a \<longrightarrow>
        \<not> numberAhead (b @ drop (length p) (drop li S))" by blast
  from p(1) have pm: "prefixOf m = p" by (simp add: prefixOf_def arg_def m)
  from wellFormed_parts(1)[OF w] pm mu have "u = p @ numExpOf m" by simp
  with u p(2) have d: "drop (length p) (drop li S) = numExpOf m @ fst st"
    by (metis append.assoc append_eq_conv_conj)
  from first have "\<forall>a b. p = a @ b \<and> b \<noteq> [] \<and> outside a \<longrightarrow>
        \<not> numberAhead (b @ numExpOf m @ fst st)" unfolding d .
  with long show ?thesis unfolding firstWhole_def rest pm by blast
qed

lemma exec_none:
  assumes "RegExpBuiltinExec jsonWithNumberExpRE S li = (None, e)"
  shows "\<not> numberOutside (drop li S)"
proof (cases "li \<le> length S")
  case True
  with assms have "ms jsonWithNumberExpRE (drop li S, Map.empty) = []"
    by (auto simp: RegExpBuiltinExec_def Let_def split: if_splits list.splits)
  then show ?thesis by (rule json_none)
next
  case False
  then have "drop li S = []" by simp
  then show ?thesis
    by (auto simp: numberOutside_def dest: expNumberText_nonempty)
qed

lemma collect_exact:
  "collect jsonWithNumberExpRE S li = (rs, l) \<Longrightarrow>
   list_all (firstWhole S) rs \<and> \<not> numberOutside (drop (li + length (concat (map matched rs))) S)"
proof (induction jsonWithNumberExpRE S li arbitrary: rs l rule: collect.induct)
  case (1 S lastIndex)
  show ?case
  proof (cases "RegExpBuiltinExec jsonWithNumberExpRE S lastIndex")
    case (Pair r e)
    show ?thesis
    proof (cases r)
      case None
      with Pair "1.prems" have "rs = []"
        by (simp add: collect.simps[of jsonWithNumberExpRE S lastIndex])
      with exec_none[OF Pair[unfolded None]] show ?thesis by simp
    next
      case (Some m)
      from exec_sound[OF Pair[unfolded Some]]
      have m: "e = lastIndex + length (matched m)" "matched m \<noteq> []" by auto
      obtain rs' l' where c: "collect jsonWithNumberExpRE S e = (rs', l')"
        by (cases "collect jsonWithNumberExpRE S e")
      from "1.hyps"[OF Pair[symmetric] Some, of rs' l'] m(2) c
      have ih: "list_all (firstWhole S) rs'
          \<and> \<not> numberOutside (drop (e + length (concat (map matched rs'))) S)" by simp
      from "1.prems" Pair Some m(2) c have "rs = m # rs'"
        by (simp add: collect.simps[of jsonWithNumberExpRE S lastIndex])
      with ih m(1) exec_first[OF Pair[unfolded Some]] show ?thesis by (simp add: add.assoc)
    qed
  qed
qed

lemma matches_exact:
  "list_all (firstWhole json) (matches json) \<and> \<not> numberOutside (trailing json)"
  using collect_exact[of json 0 "fst (collect jsonWithNumberExpRE json 0)"
      "snd (collect jsonWithNumberExpRE json 0)"]
  by (simp add: matches_def trailing_def)

lemma digits_split:
  assumes "u @ v = u' @ v'" "digits u" "digits u'" "\<not> digitAhead v" "\<not> digitAhead v'"
  shows "u = u' \<and> v = v'"
proof -
  have tw: "takeWhile isdigit (a @ b) = a" if "digits a" "\<not> digitAhead b" for a b
  proof -
    from that(2) have "takeWhile isdigit b = []"
      by (cases b) (simp_all add: digitAhead_def)
    with that(1) show ?thesis
      by (simp add: digits_def list_all_iff takeWhile_append2)
  qed
  from tw[OF assms(2,4)] tw[OF assms(3,5)] assms(1) have "u = u'" by simp
  with assms(1) show ?thesis by simp
qed

lemma opt_split:
  assumes "o1 @ v = o2 @ v'"
    and "o1 = [] \<or> (\<exists>x. o1 = [x] \<and> K x)" "o2 = [] \<or> (\<exists>x. o2 = [x] \<and> K x)"
    and "\<And>x w. v = x # w \<Longrightarrow> \<not> K x" "\<And>x w. v' = x # w \<Longrightarrow> \<not> K x"
  shows "o1 = o2 \<and> v = v'"
  using assms by (elim disjE exE conjE) auto

lemma digit_chars:
  "\<not> isdigit (CHR ''-'')" "\<not> isdigit (CHR ''+'')" "\<not> isdigit (CHR ''.'')"
  "\<not> isdigit (CHR ''e'')" "\<not> isdigit (CHR ''E'')"
  by (simp_all add: isdigit_def in_class_def in_range_def digit_def)

lemma digits_hd: "u \<noteq> [] \<Longrightarrow> digits u \<Longrightarrow> \<exists>d w. u = d # w \<and> isdigit d"
  by (cases u) (simp_all add: digits_def)

lemma number_unique:
  assumes e: "expNumber sg ip fp x ex" and e': "expNumber sg' ip' fp' x' ex'"
    and eq: "numExpText sg ip fp x ex @ r = numExpText sg' ip' fp' x' ex' @ r'"
    and r: "\<not> digitAhead r" and r': "\<not> digitAhead r'"
  shows "sg = sg' \<and> ip = ip' \<and> fp = fp' \<and> x = x' \<and> ex = ex' \<and> r = r'"
proof -
  from e obtain es ed where sg: "sg = [] \<or> sg = ''-''" and ip: "ip \<noteq> []" "digits ip"
    and fp: "case fp of None \<Rightarrow> True | Some f \<Rightarrow> f \<noteq> [] \<and> digits f"
    and x: "x = CHR ''e'' \<or> x = CHR ''E''"
    and ex: "ex = es @ ed" "es = [] \<or> es = ''+'' \<or> es = ''-''" "ed \<noteq> []" "digits ed"
    unfolding expNumber_def by blast
  from e' obtain es' ed' where sg': "sg' = [] \<or> sg' = ''-''" and ip': "ip' \<noteq> []" "digits ip'"
    and fp': "case fp' of None \<Rightarrow> True | Some f \<Rightarrow> f \<noteq> [] \<and> digits f"
    and x': "x' = CHR ''e'' \<or> x' = CHR ''E''"
    and ex': "ex' = es' @ ed'" "es' = [] \<or> es' = ''+'' \<or> es' = ''-''" "ed' \<noteq> []" "digits ed'"
    unfolding expNumber_def by blast
  define D where "D = ed @ r"
  define D' where "D' = ed' @ r'"
  define C where "C = x # es @ D"
  define C' where "C' = x' # es' @ D'"
  define F where "F = (case fp of None \<Rightarrow> [] | Some f \<Rightarrow> CHR ''.'' # f)"
  define F' where "F' = (case fp' of None \<Rightarrow> [] | Some f \<Rightarrow> CHR ''.'' # f)"
  define B where "B = F @ C"
  define B' where "B' = F' @ C'"
  define A where "A = ip @ B"
  define A' where "A' = ip' @ B'"
  from eq have 0: "sg @ A = sg' @ A'"
    by (simp add: numExpText_def A_def A'_def B_def B'_def C_def C'_def D_def D'_def F_def F'_def
        ex(1) ex'(1))
  from digits_hd[OF ip] obtain d w where d: "ip = d # w" "isdigit d" by blast
  from digits_hd[OF ip'] obtain d' w' where d': "ip' = d' # w'" "isdigit d'" by blast
  have 1: "sg = sg' \<and> A = A'"
  proof (rule opt_split[OF 0, where K = "\<lambda>c. c = CHR ''-''"])
    show "sg = [] \<or> (\<exists>x. sg = [x] \<and> x = CHR ''-'')" using sg by auto
    show "sg' = [] \<or> (\<exists>x. sg' = [x] \<and> x = CHR ''-'')" using sg' by auto
    show "A = y # v \<Longrightarrow> y \<noteq> CHR ''-''" for y v
      using d digit_chars(1) by (auto simp: A_def)
    show "A' = y # v \<Longrightarrow> y \<noteq> CHR ''-''" for y v
      using d' digit_chars(1) by (auto simp: A'_def)
  qed
  have c: "\<not> digitAhead C" "\<not> digitAhead C'"
    using x x' digit_chars by (auto simp: C_def C'_def digitAhead_def)
  have b: "\<not> digitAhead B" "\<not> digitAhead B'"
    using c digit_chars by (auto simp: B_def B'_def F_def F'_def digitAhead_def split: option.splits)
  from 1 have "ip @ B = ip' @ B'" by (simp add: A_def A'_def)
  from digits_split[OF this ip(2) ip'(2) b] have 2: "ip = ip'" "B = B'" by simp_all
  have 3: "fp = fp' \<and> C = C'"
  proof (cases fp)
    case None
    show ?thesis
    proof (cases fp')
      case None
      with \<open>fp = None\<close> 2(2) show ?thesis by (simp add: B_def B'_def F_def F'_def)
    next
      case (Some f')
      with \<open>fp = None\<close> 2(2) x show ?thesis
        by (auto simp: B_def B'_def F_def F'_def C_def)
    qed
  next
    case (Some f)
    show ?thesis
    proof (cases fp')
      case None
      with Some 2(2) x' show ?thesis
        by (auto simp: B_def B'_def F_def F'_def C'_def)
    next
      case (Some f')
      with \<open>fp = Some f\<close> 2(2) have "f @ C = f' @ C'"
        by (simp add: B_def B'_def F_def F'_def)
      from digits_split[OF this _ _ c] fp fp' Some \<open>fp = Some f\<close> show ?thesis by simp
    qed
  qed
  then have 4: "x = x'" "es @ D = es' @ D'" by (simp_all add: C_def C'_def)
  from digits_hd[OF ex(3,4)] obtain g v where g: "ed = g # v" "isdigit g" by blast
  from digits_hd[OF ex'(3,4)] obtain g' v' where g': "ed' = g' # v'" "isdigit g'" by blast
  have 5: "es = es' \<and> D = D'"
  proof (rule opt_split[OF 4(2), where K = "\<lambda>c. c = CHR ''+'' \<or> c = CHR ''-''"])
    show "es = [] \<or> (\<exists>x. es = [x] \<and> (x = CHR ''+'' \<or> x = CHR ''-''))" using ex(2) by auto
    show "es' = [] \<or> (\<exists>x. es' = [x] \<and> (x = CHR ''+'' \<or> x = CHR ''-''))" using ex'(2) by auto
    show "D = y # u \<Longrightarrow> \<not> (y = CHR ''+'' \<or> y = CHR ''-'')" for y u
      using g digit_chars(1,2) by (auto simp: D_def)
    show "D' = y # u \<Longrightarrow> \<not> (y = CHR ''+'' \<or> y = CHR ''-'')" for y u
      using g' digit_chars(1,2) by (auto simp: D'_def)
  qed
  then have "ed @ r = ed' @ r'" by (simp add: D_def D'_def)
  from digits_split[OF this ex(4) ex'(4) r r'] have 6: "ed = ed'" "r = r'" by simp_all
  from 1 2 3 4 5 6 ex(1) ex'(1) show ?thesis by simp
qed

lemma first_number_matched:
  assumes j: "json = pre @ t @ post" and o: "outside pre" and t: "expNumberText t"
    and l: "\<not> digitAhead post"
    and f: "\<forall>a b. pre = a @ b \<and> b \<noteq> [] \<and> outside a \<longrightarrow> \<not> numberAhead (b @ t @ post)"
  shows "\<exists>m rs. matches json = m # rs \<and> prefixOf m = pre \<and> numExpOf m = t"
proof -
  from j o t have no: "numberOutside json" unfolding numberOutside_def by blast
  have "matches json \<noteq> []"
  proof
    assume "matches json = []"
    then have "trailing json = json" by (simp add: trailing_def)
    with matches_exact[of json] no show False by simp
  qed
  then obtain m rs where mr: "matches json = m # rs" by (cases "matches json") auto
  from matches_sound[of json] mr have i: "index m = 0"
    and mt: "matched m = take (length (matched m)) json" and w: "wellFormed m" by simp_all
  from matches_exact[of json] mr have fw: "firstWhole json m" by simp
  define rest where "rest = drop (length (matched m)) json"
  from mt have "json = matched m @ rest"
    unfolding rest_def by (metis append_take_drop_id)
  with wellFormed_parts(1)[OF w] have j': "json = prefixOf m @ numExpOf m @ rest" by simp
  from fw i have lr: "\<not> digitAhead rest"
    and first: "\<And>a b. prefixOf m = a @ b \<Longrightarrow> b \<noteq> [] \<Longrightarrow> outside a \<Longrightarrow>
        \<not> numberAhead (b @ numExpOf m @ rest)"
    unfolding firstWhole_def rest_def by simp_all
  note om = wellFormed_parts(2)[OF w] and tm = wellFormed_parts(3)[OF w]
  have na: "numberAhead (t @ post)" "numberAhead (numExpOf m @ rest)"
    using t tm unfolding numberAhead_def by blast+
  from j j' have "pre @ (t @ post) = prefixOf m @ (numExpOf m @ rest)" by simp
  then obtain us where us: "pre = prefixOf m @ us \<and> us @ t @ post = numExpOf m @ rest
      \<or> pre @ us = prefixOf m \<and> t @ post = us @ numExpOf m @ rest"
    unfolding append_eq_append_conv2 by blast
  have "us = []"
  proof (rule ccontr)
    assume ne: "us \<noteq> []"
    from us show False
    proof
      assume a: "pre = prefixOf m @ us \<and> us @ t @ post = numExpOf m @ rest"
      with f ne om have "\<not> numberAhead (us @ t @ post)" by blast
      with a na(2) show False by simp
    next
      assume a: "pre @ us = prefixOf m \<and> t @ post = us @ numExpOf m @ rest"
      then have "prefixOf m = pre @ us" by simp
      from first[OF this ne o] a na(1) show False by simp
    qed
  qed
  with us have p: "prefixOf m = pre" and tt: "t @ post = numExpOf m @ rest" by auto
  from t obtain sg ip fp x ex where t1: "t = numExpText sg ip fp x ex" "expNumber sg ip fp x ex"
    unfolding expNumberText_def by blast
  from tm obtain sg' ip' fp' x' ex' where t2: "numExpOf m = numExpText sg' ip' fp' x' ex'"
      "expNumber sg' ip' fp' x' ex'"
    unfolding expNumberText_def by blast
  from number_unique[OF t1(2) t2(2) tt[unfolded t1(1) t2(1)] l lr] t1(1) t2(1)
  have "numExpOf m = t" by simp
  with mr p show ?thesis by blast
qed

lemma numberAhead_hd: "numberAhead (y # s) \<Longrightarrow> y = CHR ''-'' \<or> isdigit y"
proof -
  assume "numberAhead (y # s)"
  then obtain sg ip fp x ex r where t: "y # s = numExpText sg ip fp x ex @ r"
    and e: "expNumber sg ip fp x ex"
    unfolding numberAhead_def expNumberText_def by blast
  from e have sg: "sg = [] \<or> sg = ''-''" and ip: "ip \<noteq> []" "digits ip"
    unfolding expNumber_def by blast+
  from digits_hd[OF ip] obtain d w where "ip = d # w" "isdigit d" by blast
  with t sg show ?thesis by (auto simp: numExpText_def)
qed

subsection \<open>The limit on the exponent\<close>

lemma defaultReplacer_outOfRange:
  "outOfRange m \<Longrightarrow> \<exists>msg. defaultReplacer m s = (Inl (RangeError msg), s)"
  by (simp add: defaultReplacer_def exponentialToFixedReplacer_def Let_def outOfRange_def
      exponentOf_def)

lemma defaultReplacer_inRange:
  "\<not> outOfRange m \<Longrightarrow>
   defaultReplacer m s =
     (Inr (prefixOf m @ exponentialPartsToFixed (signPartOf m) (intPartOf m)
             (case fracPartOf m of None \<Rightarrow> [] | Some f \<Rightarrow> f) (exponentOf m)), s)"
  by (simp add: defaultReplacer_def exponentialToFixedReplacer_def Let_def outOfRange_def
      exponentOf_def)

lemma replaceEach_default_total:
  "list_ex outOfRange rs \<or> (\<exists>xs. fst (replaceEach defaultReplacer rs s) = Inr xs)"
proof (induction rs arbitrary: s)
  case Nil
  show ?case by simp
next
  case (Cons m rs)
  show ?case
  proof (cases "outOfRange m")
    case True
    then show ?thesis by simp
  next
    case False
    with defaultReplacer_inRange[OF False, of s] Cons.IH[of s] show ?thesis
      by (auto split: prod.splits sum.splits)
  qed
qed

lemma replaceEach_default_range:
  "(\<exists>msg. fst (replaceEach defaultReplacer rs s) = Inl (RangeError msg)) \<longleftrightarrow> list_ex outOfRange rs"
proof (induction rs arbitrary: s)
  case Nil
  show ?case by simp
next
  case (Cons m rs)
  show ?case
  proof (cases "outOfRange m")
    case True
    with defaultReplacer_outOfRange[OF True, of s] show ?thesis by auto
  next
    case False
    with defaultReplacer_inRange[OF False, of s] Cons.IH[of s] show ?thesis
      by (auto split: prod.splits sum.splits)
  qed
qed

lemma default_result:
  "fst (jsonReplaceExponentials (JString json) JUndefined w) =
     (case fst (replaceEach defaultReplacer (matches json) (heap w)) of
        Inl err \<Rightarrow> Inl err
      | Inr xs \<Rightarrow> Inr (concat xs @ trailing json))"
  by (simp add: jsonReplaceExponentials_def replaceAll_matches trailing_def
      split: prod.splits sum.splits)

lemma wellFormed_converter:
  assumes "wellFormed m"
  shows "intPartOf m \<noteq> []" "digits (intPartOf m)"
    "digits (case fracPartOf m of None \<Rightarrow> [] | Some f \<Rightarrow> f)"
proof -
  from wellFormed_parts(4)[OF assms] obtain x
    where e: "expNumber (signPartOf m) (intPartOf m) (fracPartOf m) x (expPartOf m)" by blast
  from e show "intPartOf m \<noteq> []" "digits (intPartOf m)" by (simp_all add: expNumber_def)
  from e show "digits (case fracPartOf m of None \<Rightarrow> [] | Some f \<Rightarrow> f)"
    by (cases "fracPartOf m") (simp_all add: expNumber_def digits_def)
qed

lemma matches_wellFormed: "m \<in> set (matches json) \<Longrightarrow> wellFormed m"
  using matches_sound[of json] by (simp add: list_all_iff)

lemma fixedShape_no_exponent: "fixedShape u \<Longrightarrow> CHR ''e'' \<notin> set u \<and> CHR ''E'' \<notin> set u"
  by (auto simp: fixedShape_def list_all_iff dest: isdigit_not_e)

lemma hd_matches: "length (matches json) = Suc n \<Longrightarrow> hd (matches json) \<in> set (matches json)"
  by (cases "matches json") auto

subsection \<open>The value of the converter's result\<close>

lemma foldl_digits:
  "foldl (\<lambda>a x. 10 * a + digit_val x) acc ds
   = acc * 10 ^ length ds + foldl (\<lambda>a x. 10 * a + digit_val x) 0 ds"
proof (induction ds arbitrary: acc)
  case Nil
  show ?case by simp
next
  case (Cons x ds)
  let ?f = "\<lambda>a x. 10 * a + digit_val x"
  have "foldl ?f acc (x # ds) = foldl ?f (10 * acc + digit_val x) ds" by simp
  also have "\<dots> = (10 * acc + digit_val x) * 10 ^ length ds + foldl ?f 0 ds"
    by (rule Cons.IH)
  also have "\<dots> = acc * 10 ^ length (x # ds) + (digit_val x * 10 ^ length ds + foldl ?f 0 ds)"
    by (simp add: algebra_simps)
  also have "digit_val x * 10 ^ length ds + foldl ?f 0 ds = foldl ?f (digit_val x) ds"
    by (rule Cons.IH[symmetric])
  also have "foldl ?f (digit_val x) ds = foldl ?f 0 (x # ds)" by simp
  finally show ?case .
qed

lemma digits_val_append:
  "digits_val (a @ b) = digits_val a * 10 ^ length b + digits_val b"
  unfolding digits_val_def by (simp add: foldl_digits[of "foldl _ _ a"])

lemma digits_val_zeros: "digits_val (replicate k (CHR ''0'') @ b) = digits_val b"
  by (induction k) (simp_all add: digits_val_def digit_val_def)

lemma unsignedValue_point:
  assumes "CHR ''.'' \<notin> set a"
  shows "unsignedValue (a @ CHR ''.'' # b) = decimalValue a b"
proof -
  from assms have n: "\<And>x. x \<in> set a \<Longrightarrow> x \<noteq> CHR ''.''" by auto
  show ?thesis
    by (simp add: unsignedValue_def takeWhile_append2[OF n] dropWhile_append2[OF n])
qed

lemma unsignedValue_integer:
  assumes "CHR ''.'' \<notin> set a"
  shows "unsignedValue a = decimalValue a []"
proof -
  from assms have n: "\<And>x. x \<in> set a \<Longrightarrow> x \<noteq> CHR ''.''" by auto
  from n have tw: "takeWhile (\<lambda>x. x \<noteq> CHR ''.'') a = a"
    and dw: "dropWhile (\<lambda>x. x \<noteq> CHR ''.'') a = []"
    by (simp_all add: takeWhile_eq_all_conv dropWhile_eq_Nil_conv)
  show ?thesis unfolding unsignedValue_def tw dw by simp
qed

lemma fixedValue_signed:
  assumes "sg = [] \<or> sg = ''-''" "u \<noteq> []" "isdigit (hd u)"
  shows "fixedValue (sg @ u) = (if sg = ''-'' then - 1 else 1) * unsignedValue u"
proof -
  from assms(2,3) obtain x r where u: "u = x # r" "isdigit x" by (cases u) auto
  then have "x \<noteq> CHR ''-''"
    by (auto simp: isdigit_def in_class_def in_range_def digit_def)
  with assms(1) u show ?thesis
    by (auto simp: fixedValue_def unsignedValue_def Let_def)
qed

lemma digits_no_point: "digits a \<Longrightarrow> CHR ''.'' \<notin> set a"
  by (auto simp: digits_def list_all_iff)

lemma strip0_shape:
  assumes "ip \<noteq> []" "digits ip" "rest = [] \<or> (\<exists>f. rest = CHR ''.'' # f)"
  shows "\<exists>z ip'. ip = replicate z (CHR ''0'') @ ip' \<and> ip' \<noteq> [] \<and> strip0 (ip @ rest) = ip' @ rest"
  using assms(1,2)
proof (induction ip)
  case Nil
  then show ?case by simp
next
  case (Cons x ip)
  show ?case
  proof (cases ip)
    case Nil
    from assms(3) have "strip0 ([x] @ rest) = [x] @ rest" by auto
    with Nil show ?thesis by (intro exI[of _ 0] exI[of _ "[x]"]) simp
  next
    case (Cons y ip2)
    with Cons.prems have y: "isdigit y" and d: "digits ip" by (simp_all add: digits_def)
    show ?thesis
    proof (cases "x = CHR ''0''")
      case True
      from Cons have "ip \<noteq> []" by simp
      from Cons.IH[OF this d] obtain z ip' where
        "ip = replicate z (CHR ''0'') @ ip'" "ip' \<noteq> []" "strip0 (ip @ rest) = ip' @ rest"
        by blast
      with True y Cons show ?thesis
        by (intro exI[of _ "Suc z"] exI[of _ ip']) simp
    next
      case False
      with Cons show ?thesis by (intro exI[of _ 0] exI[of _ "x # ip"]) simp
    qed
  qed
qed

lemma unsignedValue_strip0:
  assumes "ip \<noteq> []" "digits ip" "digits f"
  shows "unsignedValue (strip0 ip) = decimalValue ip []"
    "unsignedValue (strip0 (ip @ CHR ''.'' # f)) = decimalValue ip f"
proof -
  from strip0_shape[OF assms(1,2), of "[]"] obtain z ip' where
    a: "ip = replicate z (CHR ''0'') @ ip'" "strip0 ip = ip'" by auto
  from a(1) assms(2) have "digits ip'" by (simp add: digits_def)
  from unsignedValue_integer[OF digits_no_point[OF this]] a
  show "unsignedValue (strip0 ip) = decimalValue ip []"
    by (simp add: decimalValue_def digits_val_zeros)
  from strip0_shape[OF assms(1,2), of "CHR ''.'' # f"] obtain z ip' where
    b: "ip = replicate z (CHR ''0'') @ ip'" "strip0 (ip @ CHR ''.'' # f) = ip' @ CHR ''.'' # f"
    by auto
  from b(1) assms(2) have "digits ip'" by (simp add: digits_def)
  from unsignedValue_point[OF digits_no_point[OF this], of f] b
  show "unsignedValue (strip0 (ip @ CHR ''.'' # f)) = decimalValue ip f"
    by (simp add: decimalValue_def digits_val_zeros)
qed

lemma digits_val_zeros_only: "digits_val (replicate k (CHR ''0'')) = 0"
  using digits_val_zeros[of k "[]"] by (simp add: digits_val_def)

lemma digits_append: "digits (a @ b) \<longleftrightarrow> digits a \<and> digits b"
  by (simp add: digits_def)

lemma digits_take: "digits a \<Longrightarrow> digits (take n a)"
  by (simp add: digits_def list_all_take)

lemma digits_drop: "digits a \<Longrightarrow> digits (drop n a)"
  by (simp add: digits_def list_all_drop)

lemma digits_zeros: "digits (replicate k (CHR ''0''))"
  by (simp add: digits_def list_all_replicate0)

text \<open>
  What the converter's result denotes.  It is the value of the number, except where the
  exponent is negative and the integer part has more digits than the exponent takes:
  there the point is put \<open>-exponent\<close> digits from the left end of the integer part, and
  the result is the value the number would have with the exponent
  \<open>-(length intPart + exponent)\<close>.
\<close>

lemma converter_value:
  assumes sg: "sg = [] \<or> sg = ''-''" and ip: "ip \<noteq> []" "digits ip" and fp: "digits fp"
  shows "fixedValue (exponentialPartsToFixed sg ip fp e)
         = exponentialValue sg ip fp
             (if 0 \<le> e \<or> int (length ip) \<le> - e then e else - (int (length ip) + e))"
proof -
  define dv :: rat where "dv = of_nat (digits_val (ip @ fp))"
  define sign :: rat where "sign = (if sg = ''-'' then - 1 else 1)"
  from ip have hdip: "isdigit (hd ip)" by (cases ip) (auto simp: digits_def)
  have ev: "exponentialValue sg ip fp x
            = sign * (dv / 10 ^ length fp) * (if 0 \<le> x then 10 ^ nat x else 1 / 10 ^ nat (- x))" for x
    by (simp add: exponentialValue_def decimalValue_def dv_def sign_def)
  show ?thesis
  proof (cases "0 \<le> e")
    case True
    show ?thesis
    proof (cases "int (length fp) \<le> e")
      case le: True
      define k where "k = nat (e - int (length fp))"
      define unsigned where "unsigned = ip @ fp @ replicate k (CHR ''0'')"
      from ip fp have u: "unsigned \<noteq> []" "digits unsigned" "isdigit (hd unsigned)"
        using hdip by (auto simp: unsigned_def digits_append digits_zeros)
      from True le have out: "exponentialPartsToFixed sg ip fp e = sg @ strip0 unsigned"
        by (simp add: exponentialPartsToFixed_def removeLeadingZeros_strip0 unsigned_def k_def)
      from strip0_hd[OF u(1,3)] have "strip0 unsigned \<noteq> []" "isdigit (hd (strip0 unsigned))"
        by simp_all
      from fixedValue_signed[OF sg this] out
      have "fixedValue (exponentialPartsToFixed sg ip fp e) = sign * unsignedValue (strip0 unsigned)"
        by (simp add: sign_def)
      also have "unsignedValue (strip0 unsigned) = decimalValue unsigned []"
        by (rule unsignedValue_strip0(1)[OF u(1,2), of "[]"]) (simp add: digits_def)
      also have "decimalValue unsigned [] = dv * 10 ^ k"
        using digits_val_append[of "ip @ fp" "replicate k (CHR ''0'')"]
        by (simp add: decimalValue_def unsigned_def dv_def digits_val_zeros_only)
      also have "sign * (dv * 10 ^ k) = exponentialValue sg ip fp e"
      proof -
        from True le have "nat e = length fp + k" by (simp add: k_def)
        with True show ?thesis by (simp add: ev power_add)
      qed
      finally show ?thesis using True by simp
    next
      case gt: False
      define n where "n = nat e"
      with True gt have n: "n < length fp" "e = int n" by simp_all
      define ip2 where "ip2 = ip @ take n fp"
      from ip fp have i2: "ip2 \<noteq> []" "digits ip2" "isdigit (hd ip2)"
        using hdip by (auto simp: ip2_def digits_append digits_take)
      from True gt have out: "exponentialPartsToFixed sg ip fp e
            = sg @ strip0 (ip2 @ CHR ''.'' # drop n fp)"
        by (simp add: exponentialPartsToFixed_def removeLeadingZeros_strip0 ip2_def n_def)
      from i2 have "ip2 @ CHR ''.'' # drop n fp \<noteq> []" "isdigit (hd (ip2 @ CHR ''.'' # drop n fp))"
        by simp_all
      from strip0_hd[OF this]
      have "strip0 (ip2 @ CHR ''.'' # drop n fp) \<noteq> []"
        "isdigit (hd (strip0 (ip2 @ CHR ''.'' # drop n fp)))" by simp_all
      from fixedValue_signed[OF sg this] out
      have "fixedValue (exponentialPartsToFixed sg ip fp e)
            = sign * unsignedValue (strip0 (ip2 @ CHR ''.'' # drop n fp))"
        by (simp add: sign_def)
      also have "unsignedValue (strip0 (ip2 @ CHR ''.'' # drop n fp)) = decimalValue ip2 (drop n fp)"
        by (rule unsignedValue_strip0(2)[OF i2(1,2) digits_drop[OF fp]])
      also have "decimalValue ip2 (drop n fp) = dv / 10 ^ (length fp - n)"
        by (simp add: decimalValue_def ip2_def dv_def)
      also have "sign * (dv / 10 ^ (length fp - n)) = exponentialValue sg ip fp e"
      proof -
        from n(1) have "(10::rat) ^ length fp = 10 ^ (length fp - n) * 10 ^ n"
          by (simp add: power_add[symmetric])
        with n(2) show ?thesis by (simp add: ev)
      qed
      finally show ?thesis using True by simp
    qed
  next
    case False
    define n where "n = nat (- e)"
    with False have n: "0 < n" "e = - int n" by simp_all
    show ?thesis
    proof (cases "int (length ip) > - e")
      case True
      with n have ln: "n < length ip" by simp
      from False True have out: "exponentialPartsToFixed sg ip fp e
            = sg @ take n ip @ CHR ''.'' # (drop n ip @ fp)"
        by (simp add: exponentialPartsToFixed_def Let_def n_def)
      from ip n ln hdip have "take n ip @ CHR ''.'' # (drop n ip @ fp) \<noteq> []"
        "isdigit (hd (take n ip @ CHR ''.'' # (drop n ip @ fp)))"
        by (cases ip; cases n; simp)+
      from fixedValue_signed[OF sg this] out
      have "fixedValue (exponentialPartsToFixed sg ip fp e)
            = sign * unsignedValue (take n ip @ CHR ''.'' # (drop n ip @ fp))"
        by (simp add: sign_def)
      also have "unsignedValue (take n ip @ CHR ''.'' # (drop n ip @ fp))
            = decimalValue (take n ip) (drop n ip @ fp)"
        by (rule unsignedValue_point[OF digits_no_point[OF digits_take[OF ip(2)]]])
      also have "decimalValue (take n ip) (drop n ip @ fp) = dv / 10 ^ (length ip - n + length fp)"
      proof -
        have eq: "take n ip @ drop n ip @ fp = ip @ fp"
          by (simp add: append_assoc[symmetric] del: append_assoc)
        show ?thesis unfolding decimalValue_def eq dv_def by simp
      qed
      also have "sign * (dv / 10 ^ (length ip - n + length fp))
            = exponentialValue sg ip fp (- (int (length ip) + e))"
      proof -
        define d where "d = length ip - n"
        from ln n have x: "- (int (length ip) + e) = - int d" and d: "0 < d"
          by (simp_all add: d_def)
        from d have "exponentialValue sg ip fp (- int d) = sign * (dv / 10 ^ length fp) * (1 / 10 ^ d)"
          by (simp add: ev)
        then show ?thesis unfolding x d_def[symmetric] by (simp add: power_add)
      qed
      finally show ?thesis using False True by simp
    next
      case le: False
      with n have ln: "length ip \<le> n" by simp
      define j where "j = n - length ip"
      from False le have out: "exponentialPartsToFixed sg ip fp e
            = sg @ ''0'' @ CHR ''.'' # (replicate j (CHR ''0'') @ ip @ fp)"
        by (simp add: exponentialPartsToFixed_def Let_def n_def j_def nat_diff_distrib')
      have "fixedValue (exponentialPartsToFixed sg ip fp e)
            = sign * unsignedValue (''0'' @ CHR ''.'' # (replicate j (CHR ''0'') @ ip @ fp))"
        unfolding out by (rule fixedValue_signed[OF sg, unfolded sign_def[symmetric]]) simp_all
      also have "unsignedValue (''0'' @ CHR ''.'' # (replicate j (CHR ''0'') @ ip @ fp))
            = decimalValue ''0'' (replicate j (CHR ''0'') @ ip @ fp)"
        by (rule unsignedValue_point) simp
      also have "decimalValue ''0'' (replicate j (CHR ''0'') @ ip @ fp) = dv / 10 ^ (n + length fp)"
        using digits_val_zeros[of "Suc j" "ip @ fp"] ln
        by (simp add: decimalValue_def dv_def j_def)
      also have "sign * (dv / 10 ^ (n + length fp)) = exponentialValue sg ip fp e"
        using n by (simp add: ev power_add)
      finally show ?thesis using False le by simp
    qed
  qed
qed

lemma converter_value_preserved:
  assumes "sg = [] \<or> sg = ''-''" "ip \<noteq> []" "digits ip" "digits fp"
    and "0 \<le> e \<or> int (length ip) \<le> - e \<or> int (length ip) = - 2 * e"
  shows "fixedValue (exponentialPartsToFixed sg ip fp e) = exponentialValue sg ip fp e"
proof -
  from assms(5) have "(if 0 \<le> e \<or> int (length ip) \<le> - e then e else - (int (length ip) + e)) = e"
    by auto
  with converter_value[OF assms(1-4), of e] show ?thesis by simp
qed

subsection \<open>The work of the matcher on a run of digits\<close>

lemma ones_Suc: "ones (Suc n) = CHR ''1'' # ones n"
  by (simp add: ones_def)

lemma length_ones [simp]: "length (ones n) = n"
  by (simp add: ones_def)

lemma one_digit: "in_class digit (CHR ''1'')"
  by (simp add: in_class_def in_range_def digit_def)

lemma tests_Star_digit: "tests (Star (Chars digit)) (ones n, c) = Suc n"
proof (induction n)
  case 0
  show ?case by (simp add: tests.simps(6) ones_def)
next
  case (Suc n)
  then show ?case by (subst tests.simps(6)) (simp add: ones_Suc one_digit)
qed

lemma tests_number: "n \<le> tests numberExpPattern (ones n, c)"
proof (cases n)
  case 0
  then show ?thesis by simp
next
  case (Suc k)
  have "ms (Group 3 (Opt (Lit CHR ''-''))) (ones (Suc k), c) = [(ones (Suc k), c(3 \<mapsto> []))]"
    by (simp add: Opt_def Lit_def ones_Suc)
  moreover have "Suc k \<le> tests (Group 4 (Plus (Chars digit))) (ones (Suc k), c')" for c'
    by (simp add: Plus_def ones_Suc one_digit tests_Star_digit)
  ultimately show ?thesis
    unfolding Suc numberExpPattern_def tests.simps(4)[of "Group 3 (Opt (Lit CHR ''-''))"]
      tests.simps(4)[of "Group 4 (Plus (Chars digit))"]
    by (simp add: trans_le_add1 trans_le_add2)
qed

lemma ms_skipItem_one: "ms skipItem (CHR ''1'' # s, c) = [(s, c)]"
  by (simp add: skipItem_def stringPattern_def Lit_def dq_def in_class_def in_range_def)

lemma ms_prefix_ones:
  "ms (LazyStar skipItem) (ones n, c) = map (\<lambda>k. (ones k, c)) (rev [0..<Suc n])"
proof (induction n)
  case 0
  show ?case by (subst ms.simps(7)) (simp add: ones_def skipItem_def stringPattern_def Lit_def)
next
  case (Suc n)
  show ?case
    by (subst ms.simps(7)) (simp add: ones_Suc ms_skipItem_one Suc[unfolded ones_Suc])
qed

lemma sum_list_mono_upt:
  assumes "\<And>k. k \<le> g k"
  shows "n * (n + 1) \<le> 2 * sum_list (map g (rev [0..<Suc n]))"
proof (induction n)
  case 0
  show ?case by simp
next
  case (Suc n)
  from assms[of "Suc n"] Suc show ?case by simp
qed

lemma no_match_ones: "ms jsonWithNumberExpRE (ones n, Map.empty) = []"
proof (rule ccontr)
  assume "ms jsonWithNumberExpRE (ones n, Map.empty) \<noteq> []"
  then obtain s' c' where "(s', c') \<in> set (ms jsonWithNumberExpRE (ones n, Map.empty))"
    by (cases "ms jsonWithNumberExpRE (ones n, Map.empty)") auto
  from jsonWithNumberExpRE_sound[OF this] obtain p sg ip fp x ex
    where s: "ones n = p @ numExpText sg ip fp x ex @ s'" and e: "expNumber sg ip fp x ex" by blast
  from e have "x \<noteq> CHR ''1''" by (auto simp: expNumber_def)
  moreover from s have "x \<in> set (ones n)" by (simp add: numExpText_def)
  ultimately show False by (simp add: ones_def)
qed

lemma matches_ones: "matches (ones n) = []"
  by (simp add: matches_def collect.simps[of _ "ones n"] RegExpBuiltinExec_def no_match_ones)

lemma tests_ones:
  "ms jsonWithNumberExpRE (ones n, Map.empty) = []
   \<and> n * (n + 1) \<le> 2 * tests jsonWithNumberExpRE (ones n, Map.empty)"
proof -
  have g1: "ms (Group 1 (LazyStar skipItem)) (ones n, Map.empty)
      = map (\<lambda>k. (ones k, Map.empty(1 \<mapsto> take (n - k) (ones n)))) (rev [0..<Suc n])"
    unfolding ms.simps(8) ms_prefix_ones by (simp add: comp_def)
  have "n * (n + 1) \<le> 2 * sum_list (map (\<lambda>k. tests (Group 2 numberExpPattern)
            (ones k, Map.empty(1 \<mapsto> take (n - k) (ones n)))) (rev [0..<Suc n]))"
    by (rule sum_list_mono_upt) (simp add: tests_number)
  also have "\<dots> \<le> 2 * tests jsonWithNumberExpRE (ones n, Map.empty)"
    unfolding jsonWithNumberExpRE_def tests.simps(4) g1 by (simp add: comp_def)
  finally show ?thesis using no_match_ones by simp
qed

lemma tests_not_linear:
  "\<not> (\<exists>k. \<forall>json. tests jsonWithNumberExpRE (json, Map.empty) \<le> k * (length json + 1))"
proof
  assume "\<exists>k. \<forall>json. tests jsonWithNumberExpRE (json, Map.empty) \<le> k * (length json + 1)"
  then obtain k where k: "\<And>json. tests jsonWithNumberExpRE (json, Map.empty) \<le> k * (length json + 1)"
    by blast
  define n where "n = 2 * k + 1"
  from tests_ones[of n] k[of "ones n"]
  have "n * (n + 1) \<le> (2 * k) * (n + 1)" by (simp add: mult.assoc)
  then have "n \<le> 2 * k" unfolding mult_le_cancel2 by simp
  then show False by (simp add: n_def)
qed

section \<open>The claims\<close>

text \<open>
  C1.  The claim does not hold of the code: for a negative exponent \<open>-n\<close> and an integer
  part longer than \<open>n\<close>, the converter cuts the integer part \<open>n\<close> digits from its left
  end (\<open>intPart.slice(0, exponent)\<close>), not from its right end.  The document \<open>123e-1\<close>
  is one match with integer part \<open>123\<close>, no fractional part and exponent \<open>-1\<close>; it
  denotes \<open>123/10\<close>, and the result \<open>1.23\<close> denotes \<open>123/100\<close>.
\<close>

theorem value_not_preserved:
  "fst (jsonReplaceExponentials (JString ''123e-1'') JUndefined \<lparr>lastIndex = 0, heap = ()\<rparr>)
     = Inr ''1.23''
   \<and> length (matches ''123e-1'') = 1
   \<and> signPartOf (hd (matches ''123e-1'')) = []
   \<and> intPartOf (hd (matches ''123e-1'')) = ''123''
   \<and> fracPartOf (hd (matches ''123e-1'')) = None
   \<and> exponentOf (hd (matches ''123e-1'')) = - 1
   \<and> exponentialPartsToFixed [] ''123'' [] (- 1) = ''1.23''
   \<and> exponentialValue [] ''123'' [] (- 1) = 123 / 10
   \<and> fixedValue ''1.23'' = 123 / 100"
  by code_simp

text \<open>
  C2.  When a call returns, the document is the prefixes and the number texts of the
  matches, alternating and in order, followed by the text after the last match, and the
  result is the same with each number text replaced: every prefix and the trailing text
  are in the result as they are in the document.  Each prefix is a sequence of whole JSON
  string literals and of characters other than the double quote (\<open>outside\<close>), so the
  literals it holds are kept with all they contain; each number text is a number in
  exponential notation and holds no double quote, so no match starts or ends inside a
  string literal.
\<close>

theorem frame:
  assumes "jsonReplaceExponentials (JString json) replacer w = (Inr out, w')"
  shows "\<exists>reps. length reps = length (matches json)
           \<and> json = concat (map (\<lambda>m. prefixOf m @ numExpOf m) (matches json)) @ trailing json
           \<and> out = concat (map2 (\<lambda>m r. prefixOf m @ r) (matches json) reps) @ trailing json
           \<and> list_all (\<lambda>m. outside (prefixOf m) \<and> expNumberText (numExpOf m) \<and> dq \<notin> set (numExpOf m))
                (matches json)"
proof -
  have good: "list_all (\<lambda>m. outside (prefixOf m) \<and> expNumberText (numExpOf m) \<and> dq \<notin> set (numExpOf m))
                (matches json)"
    using matches_outside[of json] by (auto simp: list_all_iff dest: expNumberText_no_quote)
  have "\<exists>reps. length reps = length (matches json)
           \<and> out = concat (map2 (\<lambda>m r. prefixOf m @ r) (matches json) reps) @ trailing json"
  proof (cases replacer)
    case JUndefined
    with assms obtain xs s' where "replaceEach defaultReplacer (matches json) (heap w) = (Inr xs, s')"
      and out: "out = concat xs @ trailing json"
      by (auto simp: jsonReplaceExponentials_def replaceAll_matches trailing_def
          split: prod.splits sum.splits)
    from replaceEach_default[OF this(1)] out show ?thesis by blast
  next
    case (JFunction f)
    obtain xs s' where c: "callEach f (map (\<lambda>m. numExpOf m) (matches json)) (heap w) = (xs, s')"
      by (cases "callEach f (map (\<lambda>m. numExpOf m) (matches json)) (heap w)")
    from callEach_length[OF c]
    have "length xs = length (matches json)" by simp
    moreover from assms JFunction c custom_result[of json f w]
    have "out = concat (map2 (\<lambda>m r. prefixOf m @ r) (matches json) xs) @ trailing json"
      by simp
    ultimately show ?thesis by blast
  next
    case (JString x)
    with assms show ?thesis by (simp add: jsonReplaceExponentials_def)
  next
    case JOther
    with assms show ?thesis by (simp add: jsonReplaceExponentials_def)
  qed
  with json_decomp[of json] good show ?thesis by blast
qed

theorem frame_witness:
  "\<exists>reps. length reps = length (matches (''{'' @ [dq] @ ''1e1'' @ [dq] @ '': 1.5e1}''))
      \<and> (''{'' @ [dq] @ ''1e1'' @ [dq] @ '': 1.5e1}'')
          = concat (map (\<lambda>m. prefixOf m @ numExpOf m) (matches (''{'' @ [dq] @ ''1e1'' @ [dq] @ '': 1.5e1}'')))
            @ trailing (''{'' @ [dq] @ ''1e1'' @ [dq] @ '': 1.5e1}'')
      \<and> ''{'' @ [dq] @ ''1e1'' @ [dq] @ '': 15}''
          = concat (map2 (\<lambda>m r. prefixOf m @ r) (matches (''{'' @ [dq] @ ''1e1'' @ [dq] @ '': 1.5e1}'')) reps)
            @ trailing (''{'' @ [dq] @ ''1e1'' @ [dq] @ '': 1.5e1}'')
      \<and> list_all (\<lambda>m. outside (prefixOf m) \<and> expNumberText (numExpOf m) \<and> dq \<notin> set (numExpOf m))
           (matches (''{'' @ [dq] @ ''1e1'' @ [dq] @ '': 1.5e1}''))"
proof -
  have "jsonReplaceExponentials (JString (''{'' @ [dq] @ ''1e1'' @ [dq] @ '': 1.5e1}''))
          JUndefined \<lparr>lastIndex = 5, heap = ()\<rparr>
        = (Inr (''{'' @ [dq] @ ''1e1'' @ [dq] @ '': 15}''), \<lparr>lastIndex = 0, heap = ()\<rparr>)"
    by code_simp
  from frame[OF this] show ?thesis .
qed

text \<open>
  C3.  Without a replacer the call throws a \<open>RangeError\<close> exactly when one of the
  matches has an exponent above 1000 or below -1000, so exponents 1000 and -1000 are
  converted; it throws nothing else for a string; and with a replacer function it never
  throws.
\<close>

theorem range_error_iff:
  "((\<exists>msg. fst (jsonReplaceExponentials (JString json) JUndefined w) = Inl (RangeError msg))
      \<longleftrightarrow> list_ex (\<lambda>m. 1000 < exponentOf m \<or> exponentOf m < - 1000) (matches json))
   \<and> ((\<exists>msg. fst (jsonReplaceExponentials (JString json) JUndefined w) = Inl (RangeError msg))
      \<or> (\<exists>out. fst (jsonReplaceExponentials (JString json) JUndefined w) = Inr out))
   \<and> (\<exists>out. fst (jsonReplaceExponentials (JString json) (JFunction f) w) = Inr out)"
proof -
  have o: "(\<lambda>m. 1000 < exponentOf m \<or> exponentOf m < - 1000) = outOfRange"
    by (rule ext) (simp add: outOfRange_def)
  have 1: "(\<exists>msg. fst (jsonReplaceExponentials (JString json) JUndefined w) = Inl (RangeError msg))
      \<longleftrightarrow> list_ex outOfRange (matches json)"
    using replaceEach_default_range[of "matches json" "heap w"]
    by (auto simp: default_result split: sum.splits)
  have 2: "(\<exists>msg. fst (jsonReplaceExponentials (JString json) JUndefined w) = Inl (RangeError msg))
      \<or> (\<exists>out. fst (jsonReplaceExponentials (JString json) JUndefined w) = Inr out)"
    using replaceEach_default_total[of "matches json" "heap w"] 1
    by (auto simp: default_result split: sum.splits)
  have 3: "\<exists>out. fst (jsonReplaceExponentials (JString json) (JFunction f) w) = Inr out"
    by (simp add: custom_result split: prod.splits)
  from 1 2 3 show ?thesis unfolding o by blast
qed

theorem range_error_iff_witness:
  "(\<exists>msg. fst (jsonReplaceExponentials (JString ''[1e1000, 2e-1001]'') JUndefined
              \<lparr>lastIndex = 0, heap = ()\<rparr>) = Inl (RangeError msg))
   \<and> (\<exists>out. fst (jsonReplaceExponentials (JString ''[1e1000, 2e-1000]'') JUndefined
              \<lparr>lastIndex = 0, heap = ()\<rparr>) = Inr out)"
proof -
  have a: "list_ex (\<lambda>m. 1000 < exponentOf m \<or> exponentOf m < - 1000) (matches ''[1e1000, 2e-1001]'')"
    by code_simp
  have b: "\<not> list_ex (\<lambda>m. 1000 < exponentOf m \<or> exponentOf m < - 1000) (matches ''[1e1000, 2e-1000]'')"
    by code_simp
  from a b range_error_iff[of "''[1e1000, 2e-1001]''" "\<lparr>lastIndex = 0, heap = ()\<rparr>"]
    range_error_iff[of "''[1e1000, 2e-1000]''" "\<lparr>lastIndex = 0, heap = ()\<rparr>"]
  show ?thesis by blast
qed

text \<open>
  C4.  With a replacer function \<open>f\<close> the call applies \<open>f\<close> to the number text of each
  match, once each and from left to right (\<open>callEach\<close> passes the effects of one call
  on to the next), and the result is the prefixes with what \<open>f\<close> returned in place of
  the number texts, unchanged, followed by the trailing text.  The number texts are
  substrings of the document, each a number in exponential notation that follows a
  sequence of whole string literals and characters other than the double quote.  Each
  is the first such number after the match before it, and whole: no number in
  exponential notation starts earlier outside the string literals, so the sign belongs
  to the number text, and no digit follows the number text in the document.  None is
  left over: the trailing text has no number in exponential notation outside its string
  literals.  In particular the first number in exponential notation outside the string
  literals of a document is the number text of its first match, from the sign to the
  last digit of the exponent.  The call never fails, whatever the exponents are.
\<close>

theorem custom_replacer_contract:
  "jsonReplaceExponentials (JString json) (JFunction f) w =
     (case callEach f (map (\<lambda>m. numExpOf m) (matches json)) (heap w) of
        (xs, s') \<Rightarrow>
          (Inr (concat (map2 (\<lambda>m r. prefixOf m @ r) (matches json) xs) @ trailing json),
           \<lparr>lastIndex = 0, heap = s'\<rparr>))
   \<and> json = concat (map (\<lambda>m. prefixOf m @ numExpOf m) (matches json)) @ trailing json
   \<and> list_all (\<lambda>m. outside (prefixOf m) \<and> expNumberText (numExpOf m)) (matches json)
   \<and> list_all (firstWhole json) (matches json)
   \<and> \<not> numberOutside (trailing json)
   \<and> (\<forall>pre t post.
         json = pre @ t @ post \<and> outside pre \<and> expNumberText t \<and> \<not> digitAhead post
         \<and> (\<forall>a b. pre = a @ b \<and> b \<noteq> [] \<and> outside a \<longrightarrow> \<not> numberAhead (b @ t @ post))
         \<longrightarrow> (\<exists>m rs. matches json = m # rs \<and> prefixOf m = pre \<and> numExpOf m = t))"
  using custom_result[of json f w] json_decomp[of json] matches_outside[of json]
    matches_exact[of json] first_number_matched[of json]
  by blast

theorem custom_replacer_contract_witness:
  "jsonReplaceExponentials
     (JString (''[-1e2,'' @ [dq] @ ''3e4'' @ [dq] @ '',1.5E+3]''))
     (JFunction (\<lambda>x log. (''<'' @ x @ ''>'', log @ [x])))
     \<lparr>lastIndex = 7, heap = []\<rparr>
   = (Inr (''[<-1e2>,'' @ [dq] @ ''3e4'' @ [dq] @ '',<1.5E+3>]''),
      \<lparr>lastIndex = 0, heap = [''-1e2'', ''1.5E+3'']\<rparr>)
   \<and> (\<exists>m rs. matches (''[-1e2,'' @ [dq] @ ''3e4'' @ [dq] @ '',1.5E+3]'') = m # rs
         \<and> prefixOf m = ''['' \<and> numExpOf m = ''-1e2'')"
proof -
  define J where "J = ''[-1e2,'' @ [dq] @ ''3e4'' @ [dq] @ '',1.5E+3]''"
  define post where "post = '','' @ [dq] @ ''3e4'' @ [dq] @ '',1.5E+3]''"
  note T = custom_replacer_contract[of J "\<lambda>x log. (''<'' @ x @ ''>'', log @ [x])"
      "\<lparr>lastIndex = 7, heap = []\<rparr>"]
  have ev: "(case callEach (\<lambda>x log. (''<'' @ x @ ''>'', log @ [x]))
               (map (\<lambda>m. numExpOf m) (matches (''[-1e2,'' @ [dq] @ ''3e4'' @ [dq] @ '',1.5E+3]'')))
               (heap \<lparr>lastIndex = 7, heap = []\<rparr>) of
        (xs, s') \<Rightarrow>
          (Inr (concat (map2 (\<lambda>m r. prefixOf m @ r)
                  (matches (''[-1e2,'' @ [dq] @ ''3e4'' @ [dq] @ '',1.5E+3]'')) xs)
                @ trailing (''[-1e2,'' @ [dq] @ ''3e4'' @ [dq] @ '',1.5E+3]'')),
           \<lparr>lastIndex = 0, heap = s'\<rparr>))
      = (Inr (''[<-1e2>,'' @ [dq] @ ''3e4'' @ [dq] @ '',<1.5E+3>]'') :: error + string,
         \<lparr>lastIndex = 0, heap = [''-1e2'', ''1.5E+3'']\<rparr>)"
    by code_simp
  have run: "jsonReplaceExponentials (JString J)
     (JFunction (\<lambda>x log. (''<'' @ x @ ''>'', log @ [x]))) \<lparr>lastIndex = 7, heap = []\<rparr>
   = (Inr (''[<-1e2>,'' @ [dq] @ ''3e4'' @ [dq] @ '',<1.5E+3>]''),
      \<lparr>lastIndex = 0, heap = [''-1e2'', ''1.5E+3'']\<rparr>)"
    by (rule trans[OF T[THEN conjunct1] ev[folded J_def]])
  have j: "J = ''['' @ ''-1e2'' @ post" by (simp add: J_def post_def)
  have "skipped ''[''" by (simp add: skipped_def dq_def)
  from rep_App[of skipped "''[''" "[]", OF this rep_Nil] have o: "outside ''[''"
    by (simp add: outside_def)
  have "expNumber ''-'' ''1'' None (CHR ''e'') ''2''"
    unfolding expNumber_def
    by (intro conjI exI[of _ "[]"] exI[of _ "''2''"])
      (simp_all add: digits_def isdigit_def in_class_def in_range_def digit_def)
  then have t: "expNumberText ''-1e2''"
    unfolding expNumberText_def
    by (intro exI[of _ "''-''"] exI[of _ "''1''"] exI[of _ None] exI[of _ "CHR ''e''"]
        exI[of _ "''2''"]) (simp add: numExpText_def)
  have l: "\<not> digitAhead post"
    by (simp add: post_def digitAhead_def isdigit_def in_class_def in_range_def digit_def)
  have f: "\<forall>a b. ''['' = a @ b \<and> b \<noteq> [] \<and> outside a \<longrightarrow> \<not> numberAhead (b @ ''-1e2'' @ post)"
  proof (intro allI impI notI)
    fix a b :: string
    assume ab: "''['' = a @ b \<and> b \<noteq> [] \<and> outside a" and n: "numberAhead (b @ ''-1e2'' @ post)"
    from ab have "b = ''[''" by (auto simp: Cons_eq_append_conv)
    with n have "numberAhead (CHR ''['' # ''-1e2'' @ post)" by simp
    from numberAhead_hd[OF this] show False
      by (simp add: isdigit_def in_class_def in_range_def digit_def)
  qed
  from T j o t l f have "\<exists>m rs. matches J = m # rs \<and> prefixOf m = ''['' \<and> numExpOf m = ''-1e2''"
    by blast
  with run show ?thesis unfolding J_def by blast
qed

text \<open>
  C5 (amended).  The converter removes redundant leading zeros where the exponent is not
  negative.  Where it is negative it removes none, so the result has none only if the
  integer part of the number had none (as JSON requires of a number).
\<close>

theorem leading_zeros_trimmed:
  assumes "m \<in> set (matches json)" "- 1000 \<le> exponentOf m" "exponentOf m \<le> 1000"
    and "0 \<le> exponentOf m \<or> noRedundantZeros (intPartOf m)"
  shows "\<exists>u. defaultReplacer m s = (Inr (prefixOf m @ signPartOf m @ u), s)
             \<and> noRedundantZeros (integerPart u)"
proof -
  from assms(2,3) have r: "\<not> outOfRange m" by (simp add: outOfRange_def)
  note w = wellFormed_converter[OF matches_wellFormed[OF assms(1)]]
  from converter_trimmed[OF w assms(4), of "signPartOf m"] obtain u
    where u: "exponentialPartsToFixed (signPartOf m) (intPartOf m)
             (case fracPartOf m of None \<Rightarrow> [] | Some f \<Rightarrow> f) (exponentOf m) = signPartOf m @ u"
      "noRedundantZeros (integerPart u)" by blast
  from defaultReplacer_inRange[OF r, of s] u show ?thesis by simp
qed

theorem leading_zeros_trimmed_witness:
  "\<exists>u. defaultReplacer (hd (matches ''[-0.015e3]'')) ()
          = (Inr (prefixOf (hd (matches ''[-0.015e3]'')) @ signPartOf (hd (matches ''[-0.015e3]'')) @ u), ())
        \<and> noRedundantZeros (integerPart u)"
proof -
  have 1: "length (matches ''[-0.015e3]'') = Suc 0" by code_simp
  have 2: "- 1000 \<le> exponentOf (hd (matches ''[-0.015e3]''))" by code_simp
  have 3: "exponentOf (hd (matches ''[-0.015e3]'')) \<le> 1000" by code_simp
  have 4: "0 \<le> exponentOf (hd (matches ''[-0.015e3]''))
           \<or> noRedundantZeros (intPartOf (hd (matches ''[-0.015e3]'')))" by code_simp
  from leading_zeros_trimmed[OF hd_matches[OF 1] 2 3 4] show ?thesis .
qed

text \<open>
  C5, as stated, fails: \<open>0012e-2\<close> is matched as a whole, its exponent is negative, and
  its replacement \<open>00.12\<close> keeps both leading zeros.
\<close>

theorem leading_zeros_counterexample:
  "length (matches ''0012e-2'') = 1
   \<and> prefixOf (hd (matches ''0012e-2'')) = []
   \<and> signPartOf (hd (matches ''0012e-2'')) = []
   \<and> exponentOf (hd (matches ''0012e-2'')) = - 2
   \<and> defaultReplacer (hd (matches ''0012e-2'')) () = (Inr ''00.12'', ())
   \<and> \<not> noRedundantZeros (integerPart ''00.12'')"
  by code_simp

text \<open>
  C6.  A document that cannot be split into a sequence of whole string literals and
  characters other than the double quote, then a number in exponential notation, then
  anything, is returned as it is, and the state of the caller's replacer is the one the
  call started with: the replacer was not called.
\<close>

theorem unchanged_without_exponentials:
  assumes "\<not> (\<exists>pre t post. json = pre @ t @ post \<and> outside pre \<and> expNumberText t)"
  shows "jsonReplaceExponentials (JString json) JUndefined w = (Inr json, w\<lparr>lastIndex := 0\<rparr>)
       \<and> jsonReplaceExponentials (JString json) (JFunction f) w = (Inr json, w\<lparr>lastIndex := 0\<rparr>)"
proof -
  have "matches json = []"
  proof (cases "matches json")
    case Nil
    then show ?thesis .
  next
    case (Cons m rs)
    with json_decomp[of json] matches_outside[of json]
    have "json = prefixOf m @ numExpOf m @ (concat (map (\<lambda>m. prefixOf m @ numExpOf m) rs) @ trailing json)"
      "outside (prefixOf m)" "expNumberText (numExpOf m)" by simp_all
    with assms show ?thesis by blast
  qed
  then show ?thesis
    by (simp add: jsonReplaceExponentials_def replaceAll_matches)
qed

theorem unchanged_without_exponentials_witness:
  "jsonReplaceExponentials (JString ([dq] @ ''1e2'' @ [dq])) JUndefined \<lparr>lastIndex = 4, heap = ()\<rparr>
     = (Inr ([dq] @ ''1e2'' @ [dq]), \<lparr>lastIndex = 0, heap = ()\<rparr>)
   \<and> jsonReplaceExponentials (JString ([dq] @ ''1e2'' @ [dq])) (JFunction (\<lambda>x n. (''?'', Suc n)))
       \<lparr>lastIndex = 4, heap = 0\<rparr>
     = (Inr ([dq] @ ''1e2'' @ [dq]), \<lparr>lastIndex = 0, heap = 0\<rparr>)"
proof -
  have h: "\<not> (\<exists>pre t post. ([dq] @ ''1e2'' @ [dq]) = pre @ t @ post \<and> outside pre \<and> expNumberText t)"
  proof
    assume "\<exists>pre t post. ([dq] @ ''1e2'' @ [dq]) = pre @ t @ post \<and> outside pre \<and> expNumberText t"
    then obtain pre t post where j: "([dq] @ ''1e2'' @ [dq]) = pre @ t @ post"
      and o: "outside pre" and t: "expNumberText t" by blast
    from expNumberText_no_quote[OF t] have nq: "dq \<notin> set t" .
    from expNumberText_has_e[OF t] obtain t1 x t2 where t12: "t = t1 @ x # t2"
      and x: "x = CHR ''e'' \<or> x = CHR ''E''"
      by (metis split_list)
    from j t12 have "([dq] @ ''1e2'' @ [dq]) = (pre @ t1) @ x # (t2 @ post)" by simp
    with x have "pre @ t1 = [dq, CHR ''1'']"
      by (auto simp: Cons_eq_append_conv append_eq_Cons_conv dq_def)
    with nq t12 have "pre = [dq] \<or> pre = [dq, CHR ''1'']"
      by (auto simp: append_eq_Cons_conv Cons_eq_append_conv)
    with o outside_quote[of "[]"] outside_quote[of "''1''"] show False
      by (auto simp: dq_def)
  qed
  from unchanged_without_exponentials[OF h, of "\<lparr>lastIndex = 4, heap = ()\<rparr>"]
    unchanged_without_exponentials[OF h, of "\<lparr>lastIndex = 4, heap = 0::nat\<rparr>" "\<lambda>x n. (''?'', Suc n)"]
  show ?thesis by simp
qed

text \<open>
  C7.  A call whose \<open>json\<close> is not a string, or whose \<open>replacer\<close> is neither
  \<open>undefined\<close> nor a function, fails with a \<open>TypeError\<close>, and it does so before anything
  else happens: the state is the one the call started in, so the pattern's \<open>lastIndex\<close>
  was not touched and no replacer ran.
\<close>

theorem type_contract_violation:
  "(\<forall>src. json \<noteq> JString src) \<or> (replacer \<noteq> JUndefined \<and> (\<forall>f. replacer \<noteq> JFunction f))
   \<Longrightarrow> \<exists>msg. jsonReplaceExponentials json replacer w = (Inl (TypeError msg), w)"
  by (cases json; cases replacer) (auto simp: jsonReplaceExponentials_def)

theorem type_contract_violation_witness:
  "\<exists>msg. jsonReplaceExponentials (JString ''1e2'') JOther \<lparr>lastIndex = 3, heap = ()\<rparr>
         = (Inl (TypeError msg), \<lparr>lastIndex = 3, heap = ()\<rparr>)"
  using type_contract_violation[of "JString ''1e2''" JOther "\<lparr>lastIndex = 3, heap = ()\<rparr>"]
  by simp

text \<open>
  C8.  The claim does not hold of the pattern: on a document that is a run of \<open>n\<close>
  digits \<open>1\<close> there is no match, the one attempt of the scan fails, and before it fails
  the number pattern is tried at each of the \<open>n + 1\<close> positions of the run and reads the
  digits that are left each time, so that at least \<open>n (n + 1) / 2\<close> character tests are
  made.
\<close>

theorem quadratic_on_digit_runs:
  "matches (ones n) = []
   \<and> ms jsonWithNumberExpRE (ones n, Map.empty) = []
   \<and> n * (n + 1) \<le> 2 * tests jsonWithNumberExpRE (ones n, Map.empty)"
  using matches_ones[of n] tests_ones[of n] by simp

text \<open>
  C9.  The pattern object is shared by all calls, and its \<open>lastIndex\<close> is the only state
  of the module.  The result of a call with the default converter, or with a replacer
  without effects, is the same in every state \<open>w\<close>, \<open>w'\<close> the call may start in,
  whatever earlier calls left behind; and every call that gets to scanning leaves
  \<open>lastIndex\<close> at 0.
\<close>

theorem stateless_across_calls:
  "fst (jsonReplaceExponentials (JString src) JUndefined w)
     = fst (jsonReplaceExponentials (JString src) JUndefined w')
   \<and> fst (jsonReplaceExponentials (JString src) (pureFunc g) w)
     = fst (jsonReplaceExponentials (JString src) (pureFunc g) w')
   \<and> lastIndex (snd (jsonReplaceExponentials (JString src) JUndefined w)) = 0
   \<and> lastIndex (snd (jsonReplaceExponentials (JString src) (JFunction f) w)) = 0"
proof -
  obtain rs li where c: "collect jsonWithNumberExpRE src 0 = (rs, li)"
    by (cases "collect jsonWithNumberExpRE src 0")
  have li: "li = 0" using collect_lastIndex[of jsonWithNumberExpRE src 0] c by simp
  show ?thesis
    using splice_default[of src 0 "[]" rs "heap w" "heap w'"]
      splice_default[of src 0 "[]" rs "heap w'" "heap w'"]
      splice_pure[of src g 0 "[]" rs "heap w" "heap w'"]
      splice_pure[of src g 0 "[]" rs "heap w'" "heap w'"]
    by (simp add: jsonReplaceExponentials_def replaceAll_def c li pureFunc_def
             split: prod.splits)
qed

text \<open>
  C10.  The replacement the default converter makes for a match whose exponent is within
  the limit is the prefix, the sign as matched, and a text of digits with at most one
  decimal point and at least one digit, in which neither \<open>e\<close> nor \<open>E\<close> occurs.
\<close>

theorem default_replacement_shape:
  assumes "m \<in> set (matches json)" "- 1000 \<le> exponentOf m" "exponentOf m \<le> 1000"
  shows "\<exists>u. defaultReplacer m s = (Inr (prefixOf m @ signPartOf m @ u), s)
             \<and> fixedShape u \<and> CHR ''e'' \<notin> set u \<and> CHR ''E'' \<notin> set u"
proof -
  from assms(2,3) have r: "\<not> outOfRange m" by (simp add: outOfRange_def)
  note w = wellFormed_converter[OF matches_wellFormed[OF assms(1)]]
  from converter_shape[OF w, of "signPartOf m" "exponentOf m"] obtain u
    where u: "exponentialPartsToFixed (signPartOf m) (intPartOf m)
             (case fracPartOf m of None \<Rightarrow> [] | Some f \<Rightarrow> f) (exponentOf m) = signPartOf m @ u"
      "fixedShape u" by blast
  from defaultReplacer_inRange[OF r, of s] u fixedShape_no_exponent[OF u(2)]
  show ?thesis by simp
qed

theorem default_replacement_shape_witness:
  "\<exists>u. defaultReplacer (hd (matches ''[-0.015e3]'')) ()
          = (Inr (prefixOf (hd (matches ''[-0.015e3]'')) @ signPartOf (hd (matches ''[-0.015e3]'')) @ u), ())
        \<and> fixedShape u \<and> CHR ''e'' \<notin> set u \<and> CHR ''E'' \<notin> set u"
proof -
  have 1: "length (matches ''[-0.015e3]'') = Suc 0" by code_simp
  have 2: "- 1000 \<le> exponentOf (hd (matches ''[-0.015e3]''))" by code_simp
  have 3: "exponentOf (hd (matches ''[-0.015e3]'')) \<le> 1000" by code_simp
  from default_replacement_shape[OF hd_matches[OF 1] 2 3] show ?thesis .
qed

end
